theory Spec2Isabelle
  imports Complex_Main "HOL-Library.AList"
begin

section \<open>The dynamic lexicon of haze (haze/lexicon.py)\<close>

text \<open>
  A shallow embedding of the classes \<open>AbsorptionRecord\<close>, \<open>LexiconStats\<close> and
  \<open>Lexicon\<close>. Conventions of the model:
  \<^item> Python floats (weights, boost, decay rate, timestamps, growth rate) are the reals;
    rounding, infinities and NaN are outside the model.
  \<^item> a Python string is a list of characters. The two library functions that extraction
    calls, the regular expression class \<open>\w\<close> and \<open>str.lower\<close>, are parameters of the
    extraction functions (\<open>extract_words_with\<close>, \<open>extract_trigrams_with\<close>), over any type of
    characters, so that what is proved of extraction holds for the Unicode class and the
    Unicode \<open>lower\<close> of Python. \<open>absorb\<close> and the concrete runs use their ASCII instance on
    \<open>string\<close> (\<open>extract_words\<close>, \<open>extract_trigrams\<close>), which is what Python computes on
    ASCII text; nothing proved of \<open>absorb\<close>, \<open>decay\<close> and \<open>stats\<close> depends on which words
    extraction returns.
  \<^item> a \<open>dict\<close> that is iterated (\<open>word_weights\<close>) is an association list in insertion
    order: \<open>AList.update\<close> overwrites in place or appends, as a Python dict does;
    a \<open>dict\<close> that is only indexed (the counters of the co-occurrence field) is a map.
  \<^item> \<open>self\<close> is passed explicitly and returned updated; the clock read by
    \<open>time.time()\<close> is an argument.
\<close>

subsection \<open>Records\<close>

type_synonym token = nat
type_synonym trigram = "string \<times> string \<times> string"

record absorption_record =
  timestamp :: real
  source :: string
  words :: "string list"
  trigrams :: "trigram list"

definition count :: "absorption_record \<Rightarrow> nat" where
  "count r = length (words r) + length (trigrams r)"

record lexicon_stats =
  total_words :: nat
  total_trigrams :: nat
  unique_sources :: nat
  recent_absorptions :: nat
  growth_rate :: real

subsection \<open>The collaborators: tokenizer and co-occurrence field\<close>

text \<open>
  Modelled from the spec: the classes \<open>Vocab\<close> (haze/haze.py) and \<open>CooccurField\<close>
  (haze/cooccur.py) are not part of the sources. The tokenizer is a parameter with the three
  members the lexicon uses; the field is the pair of nested counters the lexicon indexes:
  \<open>bigram_counts[t][u]\<close> and \<open>trigram_counts[(t, u)][v]\<close>.
\<close>

record vocab =
  encode :: "string \<Rightarrow> token list"
  decode :: "token list \<Rightarrow> string"
  vocab_size :: nat

type_synonym counter = "token \<rightharpoonup> int"

record cooccur_field =
  bigram_counts :: "token \<rightharpoonup> counter"
  trigram_counts :: "(token \<times> token) \<rightharpoonup> counter"

text \<open>Reading a \<open>collections.Counter\<close>: a missing key counts 0.\<close>

definition counter_get :: "counter \<Rightarrow> token \<Rightarrow> int" where
  "counter_get c k = (case c k of None \<Rightarrow> 0 | Some n \<Rightarrow> n)"

text \<open>
  \<open>if k not in d: d[k] = Counter()\<close> followed by \<open>d[k][j] += n\<close>.
\<close>

definition counter_add :: "('k \<rightharpoonup> counter) \<Rightarrow> 'k \<Rightarrow> token \<Rightarrow> int \<Rightarrow> ('k \<rightharpoonup> counter)" where
  "counter_add d k j n =
     (let d1 = (if k \<notin> dom d then d(k \<mapsto> Map.empty) else d);
          c = the (d1 k)
      in d1(k \<mapsto> c(j \<mapsto> counter_get c j + n)))"

text \<open>The counts a reader of the field sees (0 where nothing was counted).\<close>

definition bigram_count :: "cooccur_field \<Rightarrow> token \<Rightarrow> token \<Rightarrow> int" where
  "bigram_count f a b = (case bigram_counts f a of None \<Rightarrow> 0 | Some c \<Rightarrow> counter_get c b)"

definition trigram_count :: "cooccur_field \<Rightarrow> token \<Rightarrow> token \<Rightarrow> token \<Rightarrow> int" where
  "trigram_count f a b c =
     (case trigram_counts f (a, b) of None \<Rightarrow> 0 | Some cn \<Rightarrow> counter_get cn c)"

subsection \<open>The lexicon state\<close>

record lexicon =
  vocab :: vocab
  field :: cooccur_field
  decay_rate :: real
  min_word_length :: int
  absorbed_words :: "string set"
  absorbed_trigrams :: "trigram set"
  word_weights :: "(string \<times> real) list"
  history :: "absorption_record list"
  corpus_words :: "string set"

subsection \<open>Extraction\<close>

text \<open>
  \<open>re.findall(r'\b\w+\b', s)\<close>: a left-to-right scan; \<open>cur\<close> is the run of word
  characters read so far, closed by the first character that is not one, or by the end.
  \<open>wc\<close> tells which characters the class \<open>\w\<close> holds.
\<close>

fun findall_words :: "('c \<Rightarrow> bool) \<Rightarrow> 'c list \<Rightarrow> 'c list \<Rightarrow> 'c list list" where
  "findall_words wc cur [] = (if cur = [] then [] else [cur])"
| "findall_words wc cur (c # cs) =
     (if wc c then findall_words wc (cur @ [c]) cs
      else (if cur = [] then [] else [cur]) @ findall_words wc [] cs)"

text \<open>
  \<open>_extract_words\<close> and \<open>_extract_trigrams\<close>, with the class \<open>\w\<close> (\<open>wc\<close>) and
  \<open>str.lower\<close> (\<open>lw\<close>, a function on whole strings) as parameters.
\<close>

definition extract_words_with ::
  "('c \<Rightarrow> bool) \<Rightarrow> ('c list \<Rightarrow> 'c list) \<Rightarrow> lexicon \<Rightarrow> 'c list \<Rightarrow> 'c list list" where
  "extract_words_with wc lw self text =
     (let ws = findall_words wc [] (lw text)
      in filter (\<lambda>w. int (length w) \<ge> min_word_length self) ws)"

definition extract_trigrams_with ::
  "('c \<Rightarrow> bool) \<Rightarrow> ('c list \<Rightarrow> 'c list) \<Rightarrow> 'c list
     \<Rightarrow> ('c list \<times> 'c list \<times> 'c list) list" where
  "extract_trigrams_with wc lw text =
     (let ws = findall_words wc [] (lw text)
      in map (\<lambda>i. (ws ! i, ws ! (i + 1), ws ! (i + 2))) [0 ..< length ws - 2])"

text \<open>
  The ASCII instance: the word characters are the letters, the digits and the underscore,
  and \<open>lower\<close> maps A-Z to a-z and leaves every other character as it is.
\<close>

definition is_word_char :: "char \<Rightarrow> bool" where
  "is_word_char c =
     (let n = (of_char c :: nat)
      in (48 \<le> n \<and> n \<le> 57) \<or> (65 \<le> n \<and> n \<le> 90) \<or> n = 95 \<or> (97 \<le> n \<and> n \<le> 122))"

definition lower_char :: "char \<Rightarrow> char" where
  "lower_char c =
     (case map_of (zip ''ABCDEFGHIJKLMNOPQRSTUVWXYZ'' ''abcdefghijklmnopqrstuvwxyz'') c of
        None \<Rightarrow> c
      | Some l \<Rightarrow> l)"

definition lower :: "string \<Rightarrow> string" where
  "lower s = map lower_char s"

definition extract_words :: "lexicon \<Rightarrow> string \<Rightarrow> string list" where
  "extract_words self text = extract_words_with is_word_char lower self text"

definition extract_trigrams :: "string \<Rightarrow> trigram list" where
  "extract_trigrams text = extract_trigrams_with is_word_char lower text"

subsection \<open>Construction\<close>

definition build_corpus_vocabulary :: "vocab \<Rightarrow> string set" where
  "build_corpus_vocabulary v = (\<lambda>token_id. lower (decode v [token_id])) ` {0 ..< vocab_size v}"

definition init :: "vocab \<Rightarrow> cooccur_field \<Rightarrow> real \<Rightarrow> int \<Rightarrow> lexicon" where
  "init v cf rate mwl =
     \<lparr> vocab = v, field = cf, decay_rate = rate, min_word_length = mwl,
       absorbed_words = {}, absorbed_trigrams = {}, word_weights = [], history = [],
       corpus_words = build_corpus_vocabulary v \<rparr>"

subsection \<open>Injection into the field\<close>

text \<open>\<open>int(x)\<close> on a float truncates towards zero.\<close>

definition py_int :: "real \<Rightarrow> int" where
  "py_int x = (if 0 \<le> x then \<lfloor>x\<rfloor> else \<lceil>x\<rceil>)"

definition inject_trigram :: "vocab \<Rightarrow> trigram \<Rightarrow> real \<Rightarrow> cooccur_field \<Rightarrow> cooccur_field" where
  "inject_trigram v tri weight f =
     (let w1_tokens = encode v (fst tri);
          w2_tokens = encode v (fst (snd tri));
          w3_tokens = encode v (snd (snd tri))
      in if w1_tokens = [] \<or> w2_tokens = [] \<or> w3_tokens = [] then f
         else
           let last_w1 = last w1_tokens;
               first_w2 = hd w2_tokens;
               last_w2 = last w2_tokens;
               first_w3 = hd w3_tokens;
               bc1 = counter_add (bigram_counts f) last_w1 first_w2 (py_int weight);
               bc2 = counter_add bc1 last_w2 first_w3 (py_int weight);
               tc = counter_add (trigram_counts f) (last_w1, first_w2) last_w2 (py_int weight)
           in f\<lparr>bigram_counts := bc2, trigram_counts := tc\<rparr>)"

subsection \<open>Absorption\<close>

text \<open>\<open>d.get(k, default)\<close> on the weights dictionary.\<close>

definition weight_get :: "(string \<times> real) list \<Rightarrow> string \<Rightarrow> real \<Rightarrow> real" where
  "weight_get ww k dflt = (case map_of ww k of None \<Rightarrow> dflt | Some x \<Rightarrow> x)"

text \<open>
  The reinforcement \<open>min(2.0, w + 0.1)\<close> applied to the weight read by \<open>get\<close>, and one pass
  of the loop over the extracted words. The loop state is
  (\<open>absorbed_words\<close>, \<open>word_weights\<close>, \<open>new_words\<close>).
\<close>

definition reinforce :: "real \<Rightarrow> real" where
  "reinforce x = min 2 (x + 1 / 10)"

definition absorb_word ::
  "real \<Rightarrow> string \<Rightarrow> string set \<times> (string \<times> real) list \<times> string list
     \<Rightarrow> string set \<times> (string \<times> real) list \<times> string list" where
  "absorb_word boost word st =
     (case st of (aw, ww, new_words) \<Rightarrow>
        if word \<notin> aw then (insert word aw, AList.update word boost ww, new_words @ [word])
        else (aw, AList.update word (reinforce (weight_get ww word 1)) ww, new_words))"

text \<open>
  One pass of the loop over the extracted trigrams. The loop state is
  (\<open>absorbed_trigrams\<close>, \<open>new_trigrams\<close>, the field).
\<close>

definition absorb_trigram ::
  "vocab \<Rightarrow> real \<Rightarrow> trigram \<Rightarrow> trigram set \<times> trigram list \<times> cooccur_field
     \<Rightarrow> trigram set \<times> trigram list \<times> cooccur_field" where
  "absorb_trigram v boost tri st =
     (case st of (atr, new_trigrams, f) \<Rightarrow>
        if tri \<notin> atr then (insert tri atr, new_trigrams @ [tri], inject_trigram v tri boost f)
        else (atr, new_trigrams, f))"

text \<open>\<open>xs[-n:]\<close> for a positive \<open>n\<close>: the last \<open>n\<close> elements, all of them if there are fewer.\<close>

definition lastn :: "nat \<Rightarrow> 'a list \<Rightarrow> 'a list" where
  "lastn n xs = drop (length xs - n) xs"

definition absorb :: "lexicon \<Rightarrow> string \<Rightarrow> string \<Rightarrow> real \<Rightarrow> real \<Rightarrow> absorption_record \<times> lexicon" where
  "absorb self text src boost now =
     (let ws = extract_words self text;
          tris = extract_trigrams text;
          (aw, ww, new_words) =
             fold (absorb_word boost) ws (absorbed_words self, word_weights self, []);
          (atr, new_trigrams, f) =
             fold (absorb_trigram (vocab self) boost) tris (absorbed_trigrams self, [], field self);
          rec = \<lparr> timestamp = now, source = src, words = new_words, trigrams = new_trigrams \<rparr>;
          h1 = history self @ [rec];
          h2 = (if length h1 > 100 then lastn 100 h1 else h1)
      in (rec, self\<lparr> absorbed_words := aw, word_weights := ww, absorbed_trigrams := atr,
                     field := f, history := h2 \<rparr>))"

subsection \<open>Decay\<close>

text \<open>
  The first loop runs over \<open>word_weights.items()\<close> and writes only the value of the key it
  is at, so every key is read once, with its weight from before the call. The loop state is
  (\<open>word_weights\<close>, \<open>words_to_remove\<close>, \<open>decayed\<close>).
\<close>

definition decay_item ::
  "real \<Rightarrow> string \<times> real \<Rightarrow> (string \<times> real) list \<times> string list \<times> nat
     \<Rightarrow> (string \<times> real) list \<times> string list \<times> nat" where
  "decay_item rate item st =
     (case st of (ww, words_to_remove, decayed) \<Rightarrow>
        let new_weight = snd item * rate
        in if new_weight < 1 / 10 then (ww, words_to_remove @ [fst item], decayed + 1)
           else (AList.update (fst item) new_weight ww, words_to_remove, decayed))"

text \<open>
  The second loop: \<open>absorbed_words.discard(word); del word_weights[word]\<close>. The words come
  from the keys of the dictionary, each once, so \<open>del\<close> finds its key.
\<close>

definition remove_word ::
  "string \<Rightarrow> string set \<times> (string \<times> real) list \<Rightarrow> string set \<times> (string \<times> real) list" where
  "remove_word word st = (case st of (aw, ww) \<Rightarrow> (aw - {word}, AList.delete word ww))"

definition decay :: "lexicon \<Rightarrow> nat \<times> lexicon" where
  "decay self =
     (let (ww1, words_to_remove, decayed) =
             fold (decay_item (decay_rate self)) (word_weights self) (word_weights self, [], 0);
          (aw, ww2) = fold remove_word words_to_remove (absorbed_words self, ww1)
      in (decayed, self\<lparr> absorbed_words := aw, word_weights := ww2 \<rparr>))"

subsection \<open>Statistics\<close>

definition stats :: "lexicon \<Rightarrow> lexicon_stats" where
  "stats self =
     (let sources = set (map source (history self));
          growth = (if length (history self) \<ge> 2
                    then (let recent = lastn 10 (history self);
                              total_absorbed = sum_list (map count recent)
                          in real total_absorbed / real (length recent))
                    else 0)
      in \<lparr> total_words = card (absorbed_words self),
           total_trigrams = card (absorbed_trigrams self),
           unique_sources = card sources,
           recent_absorptions = length (history self),
           growth_rate = growth \<rparr>)"

subsection \<open>Sequences of calls\<close>

text \<open>
  The life of an instance is a list of calls on it. \<open>Absorb text source boost now\<close> is
  \<open>absorb(text, source, boost)\<close> at clock reading \<open>now\<close>.
\<close>

datatype call = Absorb string string real real | Decay

fun exec_call :: "call \<Rightarrow> lexicon \<Rightarrow> lexicon" where
  "exec_call (Absorb text src boost now) self = snd (absorb self text src boost now)"
| "exec_call Decay self = snd (decay self)"

definition run :: "call list \<Rightarrow> lexicon \<Rightarrow> lexicon" where
  "run cs self = fold exec_call cs self"

text \<open>The records returned by the \<open>absorb\<close> calls of a run, in call order.\<close>

fun returned_records :: "call list \<Rightarrow> lexicon \<Rightarrow> absorption_record list" where
  "returned_records [] self = []"
| "returned_records (Absorb text src boost now # cs) self =
     fst (absorb self text src boost now)
       # returned_records cs (exec_call (Absorb text src boost now) self)"
| "returned_records (Decay # cs) self = returned_records cs (exec_call Decay self)"

text \<open>
  The calls of \<open>_inject_trigram\<close> made in a run, in order, each with its trigram and weight:
  \<open>absorb\<close> makes one for every trigram it appends to \<open>new_trigrams\<close>, with the boost of
  the call; \<open>decay\<close> makes none.
\<close>

fun injections :: "call list \<Rightarrow> lexicon \<Rightarrow> (trigram \<times> real) list" where
  "injections [] self = []"
| "injections (Absorb text src boost now # cs) self =
     map (\<lambda>t. (t, boost)) (trigrams (fst (absorb self text src boost now)))
       @ injections cs (exec_call (Absorb text src boost now) self)"
| "injections (Decay # cs) self = injections cs (exec_call Decay self)"

text \<open>The source tags passed to the \<open>absorb\<close> calls of a run, in call order.\<close>

fun absorb_sources :: "call list \<Rightarrow> string list" where
  "absorb_sources [] = []"
| "absorb_sources (Absorb text src boost now # cs) = src # absorb_sources cs"
| "absorb_sources (Decay # cs) = absorb_sources cs"

text \<open>Every \<open>absorb\<close> call of the run has its boost in (0, 2].\<close>

fun boosts_in_range :: "call list \<Rightarrow> bool" where
  "boosts_in_range [] = True"
| "boosts_in_range (Absorb text src boost now # cs) =
     (0 < boost \<and> boost \<le> 2 \<and> boosts_in_range cs)"
| "boosts_in_range (Decay # cs) = boosts_in_range cs"

subsection \<open>Tokenizers and an empty field, for concrete runs\<close>

definition char_vocab :: vocab where
  "char_vocab = \<lparr> encode = map of_char, decode = map char_of, vocab_size = 128 \<rparr>"

definition empty_field :: cooccur_field where
  "empty_field = \<lparr> bigram_counts = Map.empty, trigram_counts = Map.empty \<rparr>"

definition lex0 :: lexicon where
  "lex0 = init char_vocab empty_field (99 / 100) 3"

text \<open>A tokenizer that knows the lowercase letters only: a word without one encodes to nothing.\<close>

definition alpha_vocab :: vocab where
  "alpha_vocab =
     \<lparr> encode = (\<lambda>w. map of_char (filter (\<lambda>c. c \<in> set ''abcdefghijklmnopqrstuvwxyz'') w)),
       decode = map char_of, vocab_size = 128 \<rparr>"

definition lex_alpha :: lexicon where
  "lex_alpha = init alpha_vocab empty_field (99 / 100) 3"

text \<open>
  The class \<open>\w\<close> and \<open>str.lower\<close> of Python on the code points below 256 (Latin-1), for
  concrete runs on accented text; a text is the list of its code points.
\<close>

definition latin1_word_char :: "nat \<Rightarrow> bool" where
  "latin1_word_char n =
     ((48 \<le> n \<and> n \<le> 57) \<or> (65 \<le> n \<and> n \<le> 90) \<or> n = 95 \<or> (97 \<le> n \<and> n \<le> 122)
      \<or> n = 170 \<or> (178 \<le> n \<and> n \<le> 179) \<or> n = 181 \<or> (185 \<le> n \<and> n \<le> 186)
      \<or> (188 \<le> n \<and> n \<le> 190) \<or> (192 \<le> n \<and> n \<le> 214) \<or> (216 \<le> n \<and> n \<le> 246)
      \<or> (248 \<le> n \<and> n \<le> 255))"

definition latin1_lower :: "nat list \<Rightarrow> nat list" where
  "latin1_lower s =
     map (\<lambda>n. if (65 \<le> n \<and> n \<le> 90) \<or> (192 \<le> n \<and> n \<le> 214) \<or> (216 \<le> n \<and> n \<le> 222)
              then n + 32 else n) s"

subsection \<open>First occurrences\<close>

text \<open>
  \<open>fresh A xs\<close> lists, in order, the first occurrence of every element of \<open>xs\<close> that
  is not in \<open>A\<close>: what a loop "if x not in seen: seen.add(x); out.append(x)" appends.
  It is used to state what the two loops of \<open>absorb\<close> compute.
\<close>

fun fresh :: "'a set \<Rightarrow> 'a list \<Rightarrow> 'a list" where
  "fresh A [] = []"
| "fresh A (x # xs) = (if x \<in> A then fresh A xs else x # fresh (insert x A) xs)"

section \<open>Properties\<close>

subsection \<open>The two loops of absorb\<close>

lemma set_fresh: "set (fresh A xs) = set xs - A"
  by (induction xs arbitrary: A) auto

lemma distinct_fresh: "distinct (fresh A xs)"
  by (induction xs arbitrary: A) (auto simp: set_fresh)

lemma absorb_word_new:
  "w \<notin> aw \<Longrightarrow>
     absorb_word boost w (aw, ww, nw) = (insert w aw, AList.update w boost ww, nw @ [w])"
  by (simp add: absorb_word_def)

lemma absorb_word_seen:
  "w \<in> aw \<Longrightarrow>
     absorb_word boost w (aw, ww, nw) =
       (aw, AList.update w (reinforce (weight_get ww w 1)) ww, nw)"
  by (simp add: absorb_word_def)

lemma absorb_trigram_new:
  "t \<notin> atr \<Longrightarrow>
     absorb_trigram v boost t (atr, nt, f) = (insert t atr, nt @ [t], inject_trigram v t boost f)"
  by (simp add: absorb_trigram_def)

lemma absorb_trigram_seen:
  "t \<in> atr \<Longrightarrow> absorb_trigram v boost t (atr, nt, f) = (atr, nt, f)"
  by (simp add: absorb_trigram_def)

lemma fold_absorb_word_sets:
  "fold (absorb_word boost) ws (aw, ww, nw) = (aw', ww', nw') \<Longrightarrow>
     aw' = aw \<union> set ws \<and> nw' = nw @ fresh aw ws"
proof (induction ws arbitrary: aw ww nw)
  case Nil
  then show ?case by simp
next
  case (Cons x xs)
  then show ?case
    by (cases "x \<in> aw") (auto simp: absorb_word_new absorb_word_seen dest!: Cons.IH)
qed

lemma fold_absorb_word_keys:
  "fold (absorb_word boost) ws (aw, ww, nw) = (aw', ww', nw') \<Longrightarrow>
     fst ` set ww' = fst ` set ww \<union> set ws \<and>
     (distinct (map fst ww) \<longrightarrow> distinct (map fst ww'))"
proof (induction ws arbitrary: aw ww nw)
  case Nil
  then show ?case by simp
next
  case (Cons x xs)
  then show ?case
    by (cases "x \<in> aw")
       (auto simp: absorb_word_new absorb_word_seen dom_update distinct_update
             simp del: image_insert dest!: Cons.IH)
qed

text \<open>
  The weight of a word after the loop: untouched if the word is not in the text; reinforced
  once per occurrence if it was absorbed before; set to the boost by its first occurrence and
  reinforced by each later one otherwise.
\<close>

lemma fold_absorb_word_weight:
  "fold (absorb_word boost) ws (aw, ww, nw) = (aw', ww', nw') \<Longrightarrow>
     map_of ww' w =
       (if w \<notin> set ws then map_of ww w
        else if w \<in> aw then Some ((reinforce ^^ count_list ws w) (weight_get ww w 1))
        else Some ((reinforce ^^ (count_list ws w - 1)) boost))"
proof (induction ws arbitrary: aw ww nw)
  case Nil
  then show ?case by simp
next
  case (Cons x xs)
  show ?case
  proof (cases "x \<in> aw")
    case True
    with Cons.prems
    have "fold (absorb_word boost) xs
            (aw, AList.update x (reinforce (weight_get ww x 1)) ww, nw) = (aw', ww', nw')"
      by (simp add: absorb_word_seen)
    from Cons.IH[OF this] True show ?thesis
      by (auto simp: update_conv weight_get_def funpow_swap1)
  next
    case False
    with Cons.prems
    have "fold (absorb_word boost) xs
            (insert x aw, AList.update x boost ww, nw @ [x]) = (aw', ww', nw')"
      by (simp add: absorb_word_new)
    from Cons.IH[OF this] False show ?thesis
      by (auto simp: update_conv weight_get_def funpow_swap1)
  qed
qed

lemma fold_absorb_trigram:
  "fold (absorb_trigram v boost) ts (atr, nt, f) =
     (atr \<union> set ts, nt @ fresh atr ts,
      fold (\<lambda>t. inject_trigram v t boost) (fresh atr ts) f)"
proof (induction ts arbitrary: atr nt f)
  case Nil
  then show ?case by simp
next
  case (Cons x xs)
  then show ?case
    by (cases "x \<in> atr") (auto simp: absorb_trigram_new absorb_trigram_seen)
qed

subsection \<open>What absorb returns and stores\<close>

lemma absorb_record:
  "fst (absorb self text src boost now) =
     \<lparr> timestamp = now, source = src,
       words = fresh (absorbed_words self) (extract_words self text),
       trigrams = fresh (absorbed_trigrams self) (extract_trigrams text) \<rparr>"
  by (auto simp: absorb_def Let_def fold_absorb_trigram split: prod.splits dest: fold_absorb_word_sets)

lemma absorb_absorbed_words:
  "absorbed_words (snd (absorb self text src boost now)) =
     absorbed_words self \<union> set (extract_words self text)"
  by (auto simp: absorb_def Let_def fold_absorb_trigram split: prod.splits dest: fold_absorb_word_sets)

lemma absorb_absorbed_trigrams:
  "absorbed_trigrams (snd (absorb self text src boost now)) =
     absorbed_trigrams self \<union> set (extract_trigrams text)"
  by (auto simp: absorb_def Let_def fold_absorb_trigram split: prod.splits)

lemma absorb_field:
  "field (snd (absorb self text src boost now)) =
     fold (\<lambda>t. inject_trigram (vocab self) t boost)
       (fresh (absorbed_trigrams self) (extract_trigrams text)) (field self)"
  by (auto simp: absorb_def Let_def fold_absorb_trigram split: prod.splits)

lemma absorb_history:
  "history (snd (absorb self text src boost now)) =
     lastn 100 (history self @ [fst (absorb self text src boost now)])"
  by (auto simp: absorb_def Let_def lastn_def split: prod.splits)

lemma absorb_word_weights:
  "map_of (word_weights (snd (absorb self text src boost now))) w =
     (if w \<notin> set (extract_words self text) then map_of (word_weights self) w
      else if w \<in> absorbed_words self
      then Some ((reinforce ^^ count_list (extract_words self text) w)
                   (weight_get (word_weights self) w 1))
      else Some ((reinforce ^^ (count_list (extract_words self text) w - 1)) boost))"
  by (auto simp: absorb_def Let_def split: prod.splits dest: fold_absorb_word_weight[where w=w])

lemma absorb_keys:
  "fst ` set (word_weights (snd (absorb self text src boost now))) =
     fst ` set (word_weights self) \<union> set (extract_words self text)"
proof -
  obtain aw' ww' nw' where F:
    "fold (absorb_word boost) (extract_words self text)
       (absorbed_words self, word_weights self, []) = (aw', ww', nw')"
    by (metis prod_cases3)
  then have "word_weights (snd (absorb self text src boost now)) = ww'"
    by (simp add: absorb_def Let_def split: prod.splits)
  with fold_absorb_word_keys[OF F] show ?thesis by simp
qed

lemma absorb_distinct:
  "distinct (map fst (word_weights self)) \<Longrightarrow>
   distinct (map fst (word_weights (snd (absorb self text src boost now))))"
  by (auto simp: absorb_def Let_def split: prod.splits dest: fold_absorb_word_keys)

lemma absorb_params:
  "vocab (snd (absorb self text src boost now)) = vocab self"
  "decay_rate (snd (absorb self text src boost now)) = decay_rate self"
  "min_word_length (snd (absorb self text src boost now)) = min_word_length self"
  "corpus_words (snd (absorb self text src boost now)) = corpus_words self"
  by (auto simp: absorb_def Let_def split: prod.splits)

subsection \<open>Small facts for concrete runs\<close>

lemma extract_words_absorb:
  "extract_words (snd (absorb self text src boost now)) t = extract_words self t"
  by (simp add: extract_words_def extract_words_with_def absorb_params)

lemma length_lastn: "length (lastn n xs) = min n (length xs)"
  by (simp add: lastn_def)

lemma lastn_min: "lastn (min n (length xs)) xs = lastn n xs"
  by (simp add: lastn_def min_def)

lemma extract_hello: "findall_words is_word_char [] (lower ''hello'') = [''hello'']"
  by (simp add: lower_def lower_char_def is_word_char_def)

lemma extract_hello_world: "findall_words is_word_char [] (lower ''hello world'') = [''hello'', ''world'']"
  by (simp add: lower_def lower_char_def is_word_char_def)

lemma extract_hello_there: "findall_words is_word_char [] (lower ''hello there'') = [''hello'', ''there'']"
  by (simp add: lower_def lower_char_def is_word_char_def)

lemma lex0_simps:
  "absorbed_words lex0 = {}" "absorbed_trigrams lex0 = {}" "word_weights lex0 = []"
  "history lex0 = []" "min_word_length lex0 = 3" "decay_rate lex0 = 99 / 100"
  "vocab lex0 = char_vocab" "field lex0 = empty_field"
  by (simp_all add: lex0_def init_def)

subsection \<open>C4: the growth rate\<close>

text \<open>
  Claim C4, as the code has it: with at least two records in the history,
  \<open>stats().growth_rate\<close> is the sum of \<open>count\<close> over the last \<open>min(10, |history|)\<close>
  records divided by \<open>min(10, |history|)\<close>; with fewer than two records it is 0.
\<close>

theorem stats_growth_rate:
  "growth_rate (stats self) =
     (if 2 \<le> length (history self)
      then real (sum_list (map count (lastn (min 10 (length (history self))) (history self))))
             / real (min 10 (length (history self)))
      else 0)"
  by (simp add: stats_def Let_def lastn_min length_lastn)

text \<open>Two absorptions, of 2 and of 1 new patterns: the rate is 3/2.\<close>

theorem stats_growth_rate_witness:
  "growth_rate (stats (run [Absorb ''hello world'' ''user'' 1 0, Absorb ''hello there'' ''self'' 1 1] lex0)) = 3 / 2"
  using stats_growth_rate [of "run [Absorb ''hello world'' ''user'' 1 0, Absorb ''hello there'' ''self'' 1 1] lex0"]
  by (simp add: run_def absorb_history absorb_record absorb_params absorb_absorbed_words absorb_absorbed_trigrams
      lex0_simps extract_words_def extract_words_with_def extract_trigrams_def extract_trigrams_with_def extract_hello_world extract_hello_there lastn_def count_def)

text \<open>
  The formula without the guard fails on a history of one record: after one absorption of
  one new word the rate is 0, while the sum over the last record divided by 1 is 1.
\<close>

theorem growth_rate_single_record_counterexample:
  "growth_rate (stats (snd (absorb lex0 ''hello'' ''user'' 1 0))) = 0 \<and>
   real (sum_list (map count
          (lastn (min 10 (length (history (snd (absorb lex0 ''hello'' ''user'' 1 0)))))
             (history (snd (absorb lex0 ''hello'' ''user'' 1 0))))))
     / real (min 10 (length (history (snd (absorb lex0 ''hello'' ''user'' 1 0))))) = 1"
  by (simp add: stats_def absorb_history absorb_record lex0_simps extract_words_def extract_words_with_def extract_trigrams_def extract_trigrams_with_def
       extract_hello lastn_def count_def)

subsection \<open>C9: extraction of words and trigrams\<close>

text \<open>
  The scan returns the maximal runs of word characters: a run alone is returned whole, and a
  character that is not a word character splits the text into two independent scans. Every
  returned word is a non-empty run.
\<close>

lemma findall_words_run:
  "\<forall>c\<in>set w. wc c \<Longrightarrow>
     findall_words wc cur w = (if cur @ w = [] then [] else [cur @ w])"
  by (induction w arbitrary: cur) auto

lemma findall_words_sep:
  "\<not> wc c \<Longrightarrow>
     findall_words wc cur (u @ c # v) = findall_words wc cur u @ findall_words wc [] v"
  by (induction u arbitrary: cur) auto

lemma findall_words_wordlike:
  "w \<in> set (findall_words wc cur s) \<Longrightarrow> \<forall>c\<in>set cur. wc c \<Longrightarrow>
     w \<noteq> [] \<and> (\<forall>c\<in>set w. wc c)"
proof (induction s arbitrary: cur)
  case Nil
  then show ?case by (auto split: if_splits)
next
  case (Cons a s)
  show ?case
  proof (cases "wc a")
    case True
    with Cons.prems have "w \<in> set (findall_words wc (cur @ [a]) s)" by simp
    moreover from True Cons.prems have "\<forall>c\<in>set (cur @ [a]). wc c" by simp
    ultimately show ?thesis by (rule Cons.IH)
  next
    case False
    with Cons.prems
    have "w \<in> set (if cur = [] then [] else [cur]) \<or> w \<in> set (findall_words wc [] s)"
      by simp
    then show ?thesis
    proof
      assume "w \<in> set (if cur = [] then [] else [cur])"
      with Cons.prems show ?thesis by (simp split: if_splits)
    next
      assume "w \<in> set (findall_words wc [] s)"
      then show ?thesis by (rule Cons.IH) simp
    qed
  qed
qed

text \<open>The ASCII instance, character by character.\<close>

lemma is_word_char_iff:
  "is_word_char c =
     (c \<in> set ''abcdefghijklmnopqrstuvwxyzABCDEFGHIJKLMNOPQRSTUVWXYZ0123456789_'')"
proof (cases c)
  case (Char b0 b1 b2 b3 b4 b5 b6 b7)
  show ?thesis
    unfolding Char is_word_char_def
    by (cases b0; cases b1; cases b2; cases b3; cases b4; cases b5; cases b6; cases b7) simp_all
qed

lemma lower_char_upper:
  "map lower_char ''ABCDEFGHIJKLMNOPQRSTUVWXYZ'' = ''abcdefghijklmnopqrstuvwxyz''"
  by (simp add: lower_char_def)

lemma lower_char_other: "c \<notin> set ''ABCDEFGHIJKLMNOPQRSTUVWXYZ'' \<Longrightarrow> lower_char c = c"
proof -
  assume "c \<notin> set ''ABCDEFGHIJKLMNOPQRSTUVWXYZ''"
  then have "c \<notin> fst ` set (zip ''ABCDEFGHIJKLMNOPQRSTUVWXYZ'' ''abcdefghijklmnopqrstuvwxyz'')"
    by simp
  then have "map_of (zip ''ABCDEFGHIJKLMNOPQRSTUVWXYZ'' ''abcdefghijklmnopqrstuvwxyz'') c = None"
    by (rule iffD2[OF map_of_eq_None_iff])
  then show ?thesis by (simp only: lower_char_def option.case)
qed

lemma mat_words:
  "findall_words is_word_char [] (lower ''the cat sat on the mat'') =
     [''the'', ''cat'', ''sat'', ''on'', ''the'', ''mat'']"
  by (simp add: lower_def lower_char_def is_word_char_def)

lemma mat_trigrams:
  "extract_trigrams ''the cat sat on the mat'' =
     [(''the'', ''cat'', ''sat''), (''cat'', ''sat'', ''on''),
      (''sat'', ''on'', ''the''), (''on'', ''the'', ''mat'')]"
  by (simp add: extract_trigrams_def extract_trigrams_with_def mat_words upt_rec)

text \<open>
  Claim C9. Whatever characters the class \<open>\w\<close> holds (\<open>wc\<close>) and whatever \<open>str.lower\<close>
  computes (\<open>lw\<close>), so for Python's Unicode strings: \<open>_extract_words\<close> keeps, of the runs
  found in the lowercased text, those of length at least \<open>min_word_length\<close>; the runs found
  are the maximal runs of word characters (the three equations for the empty text, a single
  run and a separator determine the scan, and every word found is a non-empty run of word
  characters). \<open>_extract_trigrams\<close> works on the unfiltered runs: for \<open>n\<close> runs it yields
  \<open>n - 2\<close> triples (none if \<open>n < 2\<close>), the \<open>i\<close>-th being the runs \<open>i\<close>, \<open>i + 1\<close>, \<open>i + 2\<close>.
  On ASCII text the word characters are the letters, the digits and the underscore, and
  \<open>lower\<close> maps A-Z to a-z and changes nothing else (the instance \<open>extract_words\<close>,
  \<open>extract_trigrams\<close>); so with minimal length 3 the text "the cat sat on the mat" gives the
  words the, cat, sat, the, mat and four trigrams, one of them (cat, sat, on) with the
  two-letter word "on".
\<close>

theorem extract_words_trigrams_asymmetry:
  "extract_words_with wc lw self tx =
     filter (\<lambda>w. min_word_length self \<le> int (length w)) (findall_words wc [] (lw tx))
   \<and> findall_words wc [] [] = []
   \<and> (\<forall>w. w \<noteq> [] \<and> (\<forall>c\<in>set w. wc c) \<longrightarrow> findall_words wc [] w = [w])
   \<and> (\<forall>u c v. \<not> wc c \<longrightarrow>
         findall_words wc [] (u @ c # v) = findall_words wc [] u @ findall_words wc [] v)
   \<and> (\<forall>w \<in> set (findall_words wc [] (lw tx)). w \<noteq> [] \<and> (\<forall>c\<in>set w. wc c))
   \<and> length (extract_trigrams_with wc lw tx) = length (findall_words wc [] (lw tx)) - 2
   \<and> (\<forall>i < length (findall_words wc [] (lw tx)) - 2.
         extract_trigrams_with wc lw tx ! i =
           (findall_words wc [] (lw tx) ! i, findall_words wc [] (lw tx) ! (i + 1),
            findall_words wc [] (lw tx) ! (i + 2)))
   \<and> extract_words self s = extract_words_with is_word_char lower self s
   \<and> extract_trigrams s = extract_trigrams_with is_word_char lower s
   \<and> is_word_char ch =
       (ch \<in> set ''abcdefghijklmnopqrstuvwxyzABCDEFGHIJKLMNOPQRSTUVWXYZ0123456789_'')
   \<and> lower s = map lower_char s
   \<and> map lower_char ''ABCDEFGHIJKLMNOPQRSTUVWXYZ'' = ''abcdefghijklmnopqrstuvwxyz''
   \<and> (ch \<notin> set ''ABCDEFGHIJKLMNOPQRSTUVWXYZ'' \<longrightarrow> lower_char ch = ch)
   \<and> extract_words lex0 ''the cat sat on the mat'' = [''the'', ''cat'', ''sat'', ''the'', ''mat'']
   \<and> extract_trigrams ''the cat sat on the mat'' =
        [(''the'', ''cat'', ''sat''), (''cat'', ''sat'', ''on''),
         (''sat'', ''on'', ''the''), (''on'', ''the'', ''mat'')]
   \<and> int (length ''on'') < min_word_length lex0"
proof -
  have a: "extract_words_with wc lw self tx =
     filter (\<lambda>w. min_word_length self \<le> int (length w)) (findall_words wc [] (lw tx))"
    by (simp add: extract_words_with_def)
  have n: "findall_words wc [] [] = []" by simp
  have c: "\<forall>w. w \<noteq> [] \<and> (\<forall>c\<in>set w. wc c) \<longrightarrow> findall_words wc [] w = [w]"
    by (simp add: findall_words_run)
  have d: "\<forall>u c v. \<not> wc c \<longrightarrow>
         findall_words wc [] (u @ c # v) = findall_words wc [] u @ findall_words wc [] v"
    by (simp add: findall_words_sep)
  have r: "\<forall>w \<in> set (findall_words wc [] (lw tx)). w \<noteq> [] \<and> (\<forall>c\<in>set w. wc c)"
  proof
    fix w assume "w \<in> set (findall_words wc [] (lw tx))"
    then show "w \<noteq> [] \<and> (\<forall>c\<in>set w. wc c)" by (rule findall_words_wordlike) simp
  qed
  have e: "length (extract_trigrams_with wc lw tx) = length (findall_words wc [] (lw tx)) - 2"
    by (simp add: extract_trigrams_with_def Let_def)
  have f: "\<forall>i < length (findall_words wc [] (lw tx)) - 2.
         extract_trigrams_with wc lw tx ! i =
           (findall_words wc [] (lw tx) ! i, findall_words wc [] (lw tx) ! (i + 1),
            findall_words wc [] (lw tx) ! (i + 2))"
    by (simp add: extract_trigrams_with_def Let_def)
  have i1: "extract_words self s = extract_words_with is_word_char lower self s"
    by (rule extract_words_def)
  have i2: "extract_trigrams s = extract_trigrams_with is_word_char lower s"
    by (rule extract_trigrams_def)
  have l: "lower s = map lower_char s" by (rule lower_def)
  have o: "ch \<notin> set ''ABCDEFGHIJKLMNOPQRSTUVWXYZ'' \<longrightarrow> lower_char ch = ch"
    using lower_char_other by blast
  have g: "extract_words lex0 ''the cat sat on the mat'' = [''the'', ''cat'', ''sat'', ''the'', ''mat'']"
    by (simp add: extract_words_def extract_words_with_def mat_words lex0_simps)
  have h: "int (length ''on'') < min_word_length lex0"
    by (simp add: lex0_simps)
  show ?thesis
    by (intro conjI)
       (fact a n c d r e f i1 i2 is_word_char_iff l lower_char_upper o g mat_trigrams h)+
qed

text \<open>
  The text "CafE au lait" written with an acute accent on its capital E (code point 201),
  read with Python's \<open>\w\<close> and \<open>lower\<close> on Latin-1: the accented letter is a word
  character and is lowered to code point 233, the words of length at least 3 are the run of
  four letters and "lait", and the one trigram has "au" in the middle.
\<close>

theorem extract_words_trigrams_asymmetry_witness:
  "extract_words_with latin1_word_char latin1_lower lex0
       [67, 97, 102, 201, 32, 97, 117, 32, 108, 97, 105, 116]
     = [[99, 97, 102, 233], [108, 97, 105, 116]]
   \<and> findall_words latin1_word_char [] [99, 97, 102, 233] = [[99, 97, 102, 233]]
   \<and> findall_words latin1_word_char [] ([99, 97, 102, 233] @ 32 # [97, 117])
       = findall_words latin1_word_char [] [99, 97, 102, 233]
           @ findall_words latin1_word_char [] [97, 117]
   \<and> length (extract_trigrams_with latin1_word_char latin1_lower
                [67, 97, 102, 201, 32, 97, 117, 32, 108, 97, 105, 116]) = 1
   \<and> extract_trigrams_with latin1_word_char latin1_lower
         [67, 97, 102, 201, 32, 97, 117, 32, 108, 97, 105, 116] ! 0
       = ([99, 97, 102, 233], [97, 117], [108, 97, 105, 116])"
proof -
  let ?tx = "[67, 97, 102, 201, 32, 97, 117, 32, 108, 97, 105, 116] :: nat list"
  note T = extract_words_trigrams_asymmetry [where wc = latin1_word_char and lw = latin1_lower
      and self = lex0 and tx = ?tx and s = "''the cat''" and ch = "CHR ''a''"]
  have ws: "findall_words latin1_word_char [] (latin1_lower ?tx)
              = [[99, 97, 102, 233], [97, 117], [108, 97, 105, 116]]"
    by (simp add: latin1_word_char_def latin1_lower_def)
  have w1: "[99, 97, 102, 233] \<noteq> ([] :: nat list)
              \<and> (\<forall>c\<in>set [99, 97, 102, 233]. latin1_word_char c)"
    by (simp add: latin1_word_char_def)
  have w2: "\<not> latin1_word_char 32"
    by (simp add: latin1_word_char_def)
  have w3: "(0::nat) < length (findall_words latin1_word_char [] (latin1_lower ?tx)) - 2"
    by (simp add: ws)
  have p1: "extract_words_with latin1_word_char latin1_lower lex0 ?tx
              = [[99, 97, 102, 233], [108, 97, 105, 116]]"
    by (simp add: T[THEN conjunct1] ws lex0_simps)
  from T
  have "\<forall>w. w \<noteq> [] \<and> (\<forall>c\<in>set w. latin1_word_char c)
          \<longrightarrow> findall_words latin1_word_char [] w = [w]"
    by (elim conjE)
  with w1 have p2: "findall_words latin1_word_char [] [99, 97, 102, 233] = [[99, 97, 102, 233]]"
    by (elim allE impE)
  from T
  have "\<forall>u c v. \<not> latin1_word_char c \<longrightarrow>
         findall_words latin1_word_char [] (u @ c # v)
           = findall_words latin1_word_char [] u @ findall_words latin1_word_char [] v"
    by (elim conjE)
  with w2
  have p3: "findall_words latin1_word_char [] ([99, 97, 102, 233] @ 32 # [97, 117])
       = findall_words latin1_word_char [] [99, 97, 102, 233]
           @ findall_words latin1_word_char [] [97, 117]"
    by (elim allE impE)
  from T
  have "length (extract_trigrams_with latin1_word_char latin1_lower ?tx)
          = length (findall_words latin1_word_char [] (latin1_lower ?tx)) - 2"
    by (elim conjE)
  then have p4: "length (extract_trigrams_with latin1_word_char latin1_lower ?tx) = 1"
    by (simp add: ws)
  from T
  have "\<forall>i < length (findall_words latin1_word_char [] (latin1_lower ?tx)) - 2.
         extract_trigrams_with latin1_word_char latin1_lower ?tx ! i =
           (findall_words latin1_word_char [] (latin1_lower ?tx) ! i,
            findall_words latin1_word_char [] (latin1_lower ?tx) ! (i + 1),
            findall_words latin1_word_char [] (latin1_lower ?tx) ! (i + 2))"
    by (elim conjE)
  with w3
  have p5: "extract_trigrams_with latin1_word_char latin1_lower ?tx ! 0
              = ([99, 97, 102, 233], [97, 117], [108, 97, 105, 116])"
    by (simp add: ws)
  from p1 p2 p3 p4 p5 show ?thesis by (intro conjI)
qed

subsection \<open>Injection\<close>

lemma counter_add_lookup:
  "(case counter_add d k j n k' of None \<Rightarrow> 0 | Some c \<Rightarrow> counter_get c j') =
     (case d k' of None \<Rightarrow> 0 | Some c \<Rightarrow> counter_get c j') + (if k' = k \<and> j' = j then n else 0)"
  by (simp add: counter_add_def Let_def counter_get_def dom_def split: option.splits)

lemma inject_trigram_unencodable:
  "encode v a = [] \<or> encode v b = [] \<or> encode v c = [] \<Longrightarrow> inject_trigram v (a, b, c) w f = f"
  by (simp add: inject_trigram_def)

lemma inject_trigram_bigram_count:
  "encode v a \<noteq> [] \<Longrightarrow> encode v b \<noteq> [] \<Longrightarrow> encode v c \<noteq> [] \<Longrightarrow>
     bigram_count (inject_trigram v (a, b, c) w f) x y =
       bigram_count f x y
       + (if x = last (encode v a) \<and> y = hd (encode v b) then py_int w else 0)
       + (if x = last (encode v b) \<and> y = hd (encode v c) then py_int w else 0)"
  by (simp add: inject_trigram_def Let_def bigram_count_def counter_add_lookup)

lemma inject_trigram_trigram_count:
  "encode v a \<noteq> [] \<Longrightarrow> encode v b \<noteq> [] \<Longrightarrow> encode v c \<noteq> [] \<Longrightarrow>
     trigram_count (inject_trigram v (a, b, c) w f) x y z =
       trigram_count f x y z
       + (if x = last (encode v a) \<and> y = hd (encode v b) \<and> z = last (encode v b)
          then py_int w else 0)"
  by (simp add: inject_trigram_def Let_def trigram_count_def counter_add_lookup)

lemma py_int_nonneg: "- 1 < w \<Longrightarrow> 0 \<le> py_int w"
  by (simp add: py_int_def)

lemma py_int_fraction: "0 < w \<Longrightarrow> w < 1 \<Longrightarrow> py_int w = 0"
  by (simp add: py_int_def) linarith

lemma inject_trigram_mono:
  assumes "0 \<le> py_int w"
  shows "bigram_count f x y \<le> bigram_count (inject_trigram v t w f) x y"
    and "trigram_count f x y z \<le> trigram_count (inject_trigram v t w f) x y z"
proof -
  obtain a b c where t: "t = (a, b, c)" by (cases t) auto
  show "bigram_count f x y \<le> bigram_count (inject_trigram v t w f) x y"
  proof (cases "encode v a = [] \<or> encode v b = [] \<or> encode v c = []")
    case True
    then show ?thesis unfolding t by (simp only: inject_trigram_unencodable)
  next
    case False
    with assms show ?thesis unfolding t by (simp add: inject_trigram_bigram_count)
  qed
  show "trigram_count f x y z \<le> trigram_count (inject_trigram v t w f) x y z"
  proof (cases "encode v a = [] \<or> encode v b = [] \<or> encode v c = []")
    case True
    then show ?thesis unfolding t by (simp only: inject_trigram_unencodable)
  next
    case False
    with assms show ?thesis unfolding t by (simp add: inject_trigram_trigram_count)
  qed
qed

lemma fold_inject_trigram_mono:
  assumes "0 \<le> py_int w"
  shows "bigram_count f x y \<le> bigram_count (fold (\<lambda>t. inject_trigram v t w) ts f) x y"
    and "trigram_count f x y z \<le> trigram_count (fold (\<lambda>t. inject_trigram v t w) ts f) x y z"
proof -
  show "bigram_count f x y \<le> bigram_count (fold (\<lambda>t. inject_trigram v t w) ts f) x y"
  proof (induction ts arbitrary: f)
    case Nil
    show ?case by simp
  next
    case (Cons t ts)
    have "bigram_count f x y \<le> bigram_count (inject_trigram v t w f) x y"
      using assms by (rule inject_trigram_mono)
    also have "\<dots> \<le> bigram_count (fold (\<lambda>t. inject_trigram v t w) ts (inject_trigram v t w f)) x y"
      by (rule Cons.IH)
    finally show ?case by simp
  qed
  show "trigram_count f x y z \<le> trigram_count (fold (\<lambda>t. inject_trigram v t w) ts f) x y z"
  proof (induction ts arbitrary: f)
    case Nil
    show ?case by simp
  next
    case (Cons t ts)
    have "trigram_count f x y z \<le> trigram_count (inject_trigram v t w f) x y z"
      using assms by (rule inject_trigram_mono)
    also have "\<dots> \<le> trigram_count (fold (\<lambda>t. inject_trigram v t w) ts (inject_trigram v t w f)) x y z"
      by (rule Cons.IH)
    finally show ?case by simp
  qed
qed

lemma abc_trigrams: "extract_trigrams ''a b c'' = [(''a'', ''b'', ''c'')]"
  by (simp add: extract_trigrams_def extract_trigrams_with_def lower_def lower_char_def is_word_char_def)

lemma char_vocab_encode: "encode char_vocab w = map of_char w"
  by (simp add: char_vocab_def)

lemma empty_field_counts:
  "bigram_count empty_field x y = 0" "trigram_count empty_field x y z = 0"
  by (simp_all add: empty_field_def bigram_count_def trigram_count_def)

lemma decay_field: "field (snd (decay self)) = field self"
  by (simp add: decay_def Let_def split: prod.splits)

lemma inject_trigram_zero:
  assumes "py_int w = 0"
  shows "bigram_count (inject_trigram v t w f) x y = bigram_count f x y"
    and "trigram_count (inject_trigram v t w f) x y z = trigram_count f x y z"
proof -
  obtain a b c where t: "t = (a, b, c)" by (cases t) auto
  show "bigram_count (inject_trigram v t w f) x y = bigram_count f x y"
  proof (cases "encode v a = [] \<or> encode v b = [] \<or> encode v c = []")
    case True
    then show ?thesis unfolding t by (simp only: inject_trigram_unencodable)
  next
    case False
    with assms show ?thesis unfolding t by (simp add: inject_trigram_bigram_count)
  qed
  show "trigram_count (inject_trigram v t w f) x y z = trigram_count f x y z"
  proof (cases "encode v a = [] \<or> encode v b = [] \<or> encode v c = []")
    case True
    then show ?thesis unfolding t by (simp only: inject_trigram_unencodable)
  next
    case False
    with assms show ?thesis unfolding t by (simp add: inject_trigram_trigram_count)
  qed
qed

subsection \<open>C5: injections add to the counts\<close>

text \<open>
  Claim C5, as the code has it. For every \<open>absorb\<close> call with a boost above -1 (so that
  \<open>int(boost)\<close> is not negative) no pair count and no triple count of the field decreases, and
  \<open>decay\<close> leaves the field alone. An injection that is performed (three encodable words) adds
  \<open>int(weight)\<close> to the pair count of (last of word 1, first of word 2), to the pair count of
  (last of word 2, first of word 3) and to the triple count of (last of word 1, first of
  word 2, last of word 2), and changes no other count. For a weight strictly between 0 and 1
  \<open>int(weight)\<close> is 0 and every count stays as it was.
\<close>

theorem injection_additive:
  "(- 1 < boost \<longrightarrow>
      bigram_count (field self) x y
        \<le> bigram_count (field (snd (absorb self tx src boost now))) x y
    \<and> trigram_count (field self) x y z
        \<le> trigram_count (field (snd (absorb self tx src boost now))) x y z)
   \<and> field (snd (decay self)) = field self
   \<and> (encode v a \<noteq> [] \<and> encode v b \<noteq> [] \<and> encode v c \<noteq> [] \<longrightarrow>
        (\<forall>p q. bigram_count (inject_trigram v (a, b, c) w f) p q =
           bigram_count f p q
           + (if p = last (encode v a) \<and> q = hd (encode v b) then py_int w else 0)
           + (if p = last (encode v b) \<and> q = hd (encode v c) then py_int w else 0))
      \<and> (\<forall>p q r. trigram_count (inject_trigram v (a, b, c) w f) p q r =
           trigram_count f p q r
           + (if p = last (encode v a) \<and> q = hd (encode v b) \<and> r = last (encode v b)
              then py_int w else 0)))
   \<and> (0 < u \<and> u < 1 \<longrightarrow>
        py_int u = 0
      \<and> (\<forall>t p q. bigram_count (inject_trigram v t u f) p q = bigram_count f p q)
      \<and> (\<forall>t p q r. trigram_count (inject_trigram v t u f) p q r = trigram_count f p q r))"
proof (intro conjI impI allI)
  assume b: "- 1 < boost"
  then have nn: "0 \<le> py_int boost" by (rule py_int_nonneg)
  show "bigram_count (field self) x y
        \<le> bigram_count (field (snd (absorb self tx src boost now))) x y"
    unfolding absorb_field using nn by (rule fold_inject_trigram_mono)
  show "trigram_count (field self) x y z
        \<le> trigram_count (field (snd (absorb self tx src boost now))) x y z"
    unfolding absorb_field using nn by (rule fold_inject_trigram_mono)
next
  show "field (snd (decay self)) = field self" by (rule decay_field)
next
  fix p q
  assume "encode v a \<noteq> [] \<and> encode v b \<noteq> [] \<and> encode v c \<noteq> []"
  then show "bigram_count (inject_trigram v (a, b, c) w f) p q =
           bigram_count f p q
           + (if p = last (encode v a) \<and> q = hd (encode v b) then py_int w else 0)
           + (if p = last (encode v b) \<and> q = hd (encode v c) then py_int w else 0)"
    by (simp add: inject_trigram_bigram_count)
next
  fix p q r
  assume "encode v a \<noteq> [] \<and> encode v b \<noteq> [] \<and> encode v c \<noteq> []"
  then show "trigram_count (inject_trigram v (a, b, c) w f) p q r =
           trigram_count f p q r
           + (if p = last (encode v a) \<and> q = hd (encode v b) \<and> r = last (encode v b)
              then py_int w else 0)"
    by (simp add: inject_trigram_trigram_count)
next
  assume "0 < u \<and> u < 1"
  then show "py_int u = 0" by (simp add: py_int_fraction)
next
  fix t p q
  assume "0 < u \<and> u < 1"
  then have "py_int u = 0" by (simp add: py_int_fraction)
  then show "bigram_count (inject_trigram v t u f) p q = bigram_count f p q"
    by (rule inject_trigram_zero)
next
  fix t p q r
  assume "0 < u \<and> u < 1"
  then have "py_int u = 0" by (simp add: py_int_fraction)
  then show "trigram_count (inject_trigram v t u f) p q r = trigram_count f p q r"
    by (rule inject_trigram_zero)
qed

text \<open>
  Absorbing "a b c" with boost 2 into the empty field: the counts of (a, b) and of (a, b, b)
  become 2; with weight 1/2 the count of (a, b) stays 0.
\<close>

theorem injection_additive_witness:
  "bigram_count (field lex0) 97 98
     \<le> bigram_count (field (snd (absorb lex0 ''a b c'' ''user'' 2 0))) 97 98
   \<and> bigram_count (inject_trigram char_vocab (''a'', ''b'', ''c'') 2 empty_field) 97 98 = 2
   \<and> trigram_count (inject_trigram char_vocab (''a'', ''b'', ''c'') 2 empty_field) 97 98 98 = 2
   \<and> bigram_count (inject_trigram char_vocab (''a'', ''b'', ''c'') (1 / 2) empty_field) 97 98 = 0"
proof -
  note T = injection_additive [where boost = 2 and self = lex0 and tx = "''a b c''"
      and src = "''user''" and now = 0 and x = 97 and y = 98 and z = 98
      and v = char_vocab and a = "''a''" and b = "''b''" and c = "''c''" and w = 2
      and f = empty_field and u = "1 / 2"]
  have h1: "- 1 < (2::real)" by simp
  have h2: "encode char_vocab ''a'' \<noteq> [] \<and> encode char_vocab ''b'' \<noteq> []
             \<and> encode char_vocab ''c'' \<noteq> []"
    by (simp add: char_vocab_encode)
  have h3: "0 < (1 / 2 :: real) \<and> (1 / 2 :: real) < 1" by simp
  from T h1 have p1: "bigram_count (field lex0) 97 98
     \<le> bigram_count (field (snd (absorb lex0 ''a b c'' ''user'' 2 0))) 97 98"
    by blast
  from T h2 have "bigram_count (inject_trigram char_vocab (''a'', ''b'', ''c'') 2 empty_field) 97 98 =
           bigram_count empty_field 97 98
           + (if 97 = last (encode char_vocab ''a'') \<and> 98 = hd (encode char_vocab ''b'') then py_int 2 else 0)
           + (if 97 = last (encode char_vocab ''b'') \<and> 98 = hd (encode char_vocab ''c'') then py_int 2 else 0)"
    by blast
  then have p2: "bigram_count (inject_trigram char_vocab (''a'', ''b'', ''c'') 2 empty_field) 97 98 = 2"
    by (simp add: char_vocab_encode empty_field_counts py_int_def)
  from T h2 have "trigram_count (inject_trigram char_vocab (''a'', ''b'', ''c'') 2 empty_field) 97 98 98 =
           trigram_count empty_field 97 98 98
           + (if 97 = last (encode char_vocab ''a'') \<and> 98 = hd (encode char_vocab ''b'')
                 \<and> 98 = last (encode char_vocab ''b'')
              then py_int 2 else 0)"
    by blast
  then have p3: "trigram_count (inject_trigram char_vocab (''a'', ''b'', ''c'') 2 empty_field) 97 98 98 = 2"
    by (simp add: char_vocab_encode empty_field_counts py_int_def)
  from T h3 have "bigram_count (inject_trigram char_vocab (''a'', ''b'', ''c'') (1 / 2) empty_field) 97 98
      = bigram_count empty_field 97 98"
    by blast
  then have p4: "bigram_count (inject_trigram char_vocab (''a'', ''b'', ''c'') (1 / 2) empty_field) 97 98 = 0"
    by (simp add: empty_field_counts)
  from p1 p2 p3 p4 show ?thesis by (intro conjI)
qed

text \<open>
  With boost -1 the increment \<open>int(-1.0)\<close> is -1: absorbing "a b c" into the empty field
  takes the pair count of (a, b) from 0 to -1.
\<close>

theorem negative_boost_counterexample:
  "bigram_count (field (snd (absorb lex0 ''a b c'' ''user'' (- 1) 0))) 97 98
     < bigram_count (field lex0) 97 98"
  by (simp add: absorb_field lex0_simps abc_trigrams inject_trigram_bigram_count
        char_vocab_encode empty_field_counts py_int_def)

subsection \<open>C8: a trigram with an unencodable word\<close>

lemma fold_inject_trigram_encodable:
  "fold (\<lambda>u. inject_trigram v u w) ts f =
     fold (\<lambda>u. inject_trigram v u w)
       (filter (\<lambda>u. encode v (fst u) \<noteq> [] \<and> encode v (fst (snd u)) \<noteq> []
                  \<and> encode v (snd (snd u)) \<noteq> []) ts) f"
proof (induction ts arbitrary: f)
  case Nil
  show ?case by simp
next
  case (Cons t ts)
  obtain a b c where t: "t = (a, b, c)" by (cases t) auto
  show ?case
  proof (cases "encode v a = [] \<or> encode v b = [] \<or> encode v c = []")
    case True
    then have "inject_trigram v t w f = f" unfolding t by (rule inject_trigram_unencodable)
    with True Cons.IH show ?thesis by (auto simp: t)
  next
    case False
    with Cons.IH show ?thesis by (simp add: t)
  qed
qed

lemma go_42_now: "extract_trigrams ''go 42 now'' = [(''go'', ''42'', ''now'')]"
  by (simp add: extract_trigrams_def extract_trigrams_with_def lower_def lower_char_def is_word_char_def)

lemma alpha_vocab_42: "encode alpha_vocab ''42'' = []"
  by (simp add: alpha_vocab_def)

lemma lex_alpha_simps:
  "absorbed_words lex_alpha = {}" "absorbed_trigrams lex_alpha = {}" "word_weights lex_alpha = []"
  "history lex_alpha = []" "min_word_length lex_alpha = 3" "decay_rate lex_alpha = 99 / 100"
  "vocab lex_alpha = alpha_vocab" "field lex_alpha = empty_field"
  by (simp_all add: lex_alpha_def init_def)

text \<open>
  Claim C8. If one of the three words of a trigram encodes to the empty sequence,
  \<open>_inject_trigram\<close> returns the field as it got it: no pair count and no triple count is
  touched. A trigram of the text that was not absorbed before is nevertheless added to
  \<open>absorbed_trigrams\<close> and listed in the \<open>trigrams\<close> of the returned record, whether it can
  be encoded or not; and the field after \<open>absorb\<close> is the field before it with the encodable
  ones among the listed trigrams injected, the others leaving no trace.
\<close>

theorem unencodable_trigram_absorbed:
  "(encode v a = [] \<or> encode v b = [] \<or> encode v c = [] \<longrightarrow>
      inject_trigram v (a, b, c) w f = f)
   \<and> (t \<in> set (extract_trigrams tx) \<and> t \<notin> absorbed_trigrams self \<longrightarrow>
        t \<in> absorbed_trigrams (snd (absorb self tx src boost now))
      \<and> t \<in> set (trigrams (fst (absorb self tx src boost now))))
   \<and> field (snd (absorb self tx src boost now)) =
       fold (\<lambda>u. inject_trigram (vocab self) u boost)
         (filter (\<lambda>u. encode (vocab self) (fst u) \<noteq> []
                    \<and> encode (vocab self) (fst (snd u)) \<noteq> []
                    \<and> encode (vocab self) (snd (snd u)) \<noteq> [])
            (trigrams (fst (absorb self tx src boost now))))
         (field self)"
proof (intro conjI impI)
  assume "encode v a = [] \<or> encode v b = [] \<or> encode v c = []"
  then show "inject_trigram v (a, b, c) w f = f" by (rule inject_trigram_unencodable)
next
  assume "t \<in> set (extract_trigrams tx) \<and> t \<notin> absorbed_trigrams self"
  then show "t \<in> absorbed_trigrams (snd (absorb self tx src boost now))"
    by (simp add: absorb_absorbed_trigrams)
next
  assume "t \<in> set (extract_trigrams tx) \<and> t \<notin> absorbed_trigrams self"
  then show "t \<in> set (trigrams (fst (absorb self tx src boost now)))"
    by (simp add: absorb_record set_fresh)
next
  have "trigrams (fst (absorb self tx src boost now)) =
          fresh (absorbed_trigrams self) (extract_trigrams tx)"
    by (simp add: absorb_record)
  then show "field (snd (absorb self tx src boost now)) =
       fold (\<lambda>u. inject_trigram (vocab self) u boost)
         (filter (\<lambda>u. encode (vocab self) (fst u) \<noteq> []
                    \<and> encode (vocab self) (fst (snd u)) \<noteq> []
                    \<and> encode (vocab self) (snd (snd u)) \<noteq> [])
            (trigrams (fst (absorb self tx src boost now))))
         (field self)"
    by (simp only: absorb_field fold_inject_trigram_encodable [symmetric])
qed

text \<open>
  With the letters-only tokenizer "42" cannot be encoded: absorbing "go 42 now" leaves the
  field as it was, and the trigram (go, 42, now) is absorbed and reported.
\<close>

theorem unencodable_trigram_absorbed_witness:
  "inject_trigram alpha_vocab (''go'', ''42'', ''now'') 1 empty_field = empty_field
   \<and> (''go'', ''42'', ''now'')
        \<in> absorbed_trigrams
            (snd (absorb lex_alpha ''go 42 now'' ''user'' 1 0))
   \<and> (''go'', ''42'', ''now'')
        \<in> set (trigrams
            (fst (absorb lex_alpha ''go 42 now'' ''user'' 1 0)))
   \<and> field (snd (absorb lex_alpha ''go 42 now'' ''user'' 1 0))
       = empty_field"
proof -
  note T = unencodable_trigram_absorbed [where v = alpha_vocab and a = "''go''" and b = "''42''"
      and c = "''now''" and w = 1 and f = empty_field and t = "(''go'', ''42'', ''now'')"
      and tx = "''go 42 now''" and self = lex_alpha
      and src = "''user''" and boost = 1 and now = 0]
  have h1: "encode alpha_vocab ''go'' = [] \<or> encode alpha_vocab ''42'' = []
              \<or> encode alpha_vocab ''now'' = []"
    by (simp add: alpha_vocab_42)
  have h2: "(''go'', ''42'', ''now'') \<in> set (extract_trigrams ''go 42 now'')
              \<and> (''go'', ''42'', ''now'') \<notin> absorbed_trigrams lex_alpha"
    by (simp add: go_42_now lex_alpha_simps)
  have r: "trigrams (fst (absorb lex_alpha ''go 42 now'' ''user'' 1 0))
             = [(''go'', ''42'', ''now'')]"
    by (simp add: absorb_record go_42_now lex_alpha_simps)
  from T h1 have p1: "inject_trigram alpha_vocab (''go'', ''42'', ''now'') 1 empty_field = empty_field"
    by blast
  from T h2 have p2: "(''go'', ''42'', ''now'')
        \<in> absorbed_trigrams
            (snd (absorb lex_alpha ''go 42 now'' ''user'' 1 0))"
    by blast
  from T h2 have p3: "(''go'', ''42'', ''now'')
        \<in> set (trigrams
            (fst (absorb lex_alpha ''go 42 now'' ''user'' 1 0)))"
    by blast
  have p4: "field (snd (absorb lex_alpha ''go 42 now'' ''user'' 1 0))
       = empty_field"
    by (simp add: T[THEN conjunct2, THEN conjunct2] r alpha_vocab_42 lex_alpha_simps)
  from p1 p2 p3 p4 show ?thesis by (intro conjI)
qed

subsection \<open>Runs\<close>

lemma run_Nil: "run [] self = self"
  by (simp add: run_def)

lemma run_Cons: "run (c # cs) self = run cs (exec_call c self)"
  by (simp add: run_def)

lemma decay_params:
  "vocab (snd (decay self)) = vocab self"
  "decay_rate (snd (decay self)) = decay_rate self"
  "min_word_length (snd (decay self)) = min_word_length self"
  "corpus_words (snd (decay self)) = corpus_words self"
  "absorbed_trigrams (snd (decay self)) = absorbed_trigrams self"
  "history (snd (decay self)) = history self"
  by (simp_all add: decay_def Let_def split: prod.splits)

lemma exec_call_vocab: "vocab (exec_call c self) = vocab self"
  by (cases c) (simp_all add: absorb_params decay_params)

lemma count_list_distinct:
  "distinct xs \<Longrightarrow> count_list xs x = (if x \<in> set xs then 1 else 0)"
  by (induction xs) auto

subsection \<open>C1: every trigram is injected once\<close>

lemma injections_fresh:
  "distinct (map fst (injections cs self)) \<and>
   fst ` set (injections cs self) \<inter> absorbed_trigrams self = {} \<and>
   absorbed_trigrams (run cs self) = absorbed_trigrams self \<union> fst ` set (injections cs self)"
proof (induction cs arbitrary: self)
  case Nil
  show ?case by (simp add: run_Nil)
next
  case (Cons c cs)
  show ?case
  proof (cases c)
    case (Absorb tx src boost now)
    let ?s = "snd (absorb self tx src boost now)"
    let ?new = "fresh (absorbed_trigrams self) (extract_trigrams tx)"
    have inj: "map fst (injections (c # cs) self) = ?new @ map fst (injections cs ?s)"
      by (simp add: Absorb absorb_record comp_def)
    have at: "absorbed_trigrams ?s = absorbed_trigrams self \<union> set (extract_trigrams tx)"
      by (rule absorb_absorbed_trigrams)
    from Cons.IH[of ?s]
    have d: "distinct (map fst (injections cs ?s))"
      and i: "fst ` set (injections cs ?s) \<inter> absorbed_trigrams ?s = {}"
      and r: "absorbed_trigrams (run cs ?s) = absorbed_trigrams ?s \<union> fst ` set (injections cs ?s)"
      by simp_all
    have s: "fst ` set (injections (c # cs) self) = set ?new \<union> fst ` set (injections cs ?s)"
      using inj by (metis set_append set_map)
    have rn: "run (c # cs) self = run cs ?s"
      by (simp add: run_Cons Absorb)
    have 1: "distinct (map fst (injections (c # cs) self))"
      unfolding inj using d i at by (auto simp: distinct_fresh set_fresh)
    have 2: "fst ` set (injections (c # cs) self) \<inter> absorbed_trigrams self = {}"
      unfolding s using i at by (auto simp: set_fresh)
    have 3: "absorbed_trigrams (run (c # cs) self) =
               absorbed_trigrams self \<union> fst ` set (injections (c # cs) self)"
      unfolding s rn r at by (auto simp: set_fresh)
    from 1 2 3 show ?thesis by (intro conjI)
  next
    case Decay
    with Cons.IH[of "snd (decay self)"] show ?thesis
      by (simp add: run_Cons decay_params)
  qed
qed

lemma run_field:
  "field (run cs self) =
     fold (\<lambda>(u, w). inject_trigram (vocab self) u w) (injections cs self) (field self)"
proof (induction cs arbitrary: self)
  case Nil
  show ?case by (simp add: run_Nil)
next
  case (Cons c cs)
  show ?case
  proof (cases c)
    case (Absorb tx src boost now)
    show ?thesis
      by (simp add: Absorb run_Cons Cons.IH absorb_params absorb_field absorb_record
            fold_map comp_def)
  next
    case Decay
    show ?thesis
      by (simp add: Decay run_Cons Cons.IH decay_params decay_field)
  qed
qed

lemma abc_words: "findall_words is_word_char [] (lower ''a b c'') = [''a'', ''b'', ''c'']"
  by (simp add: lower_def lower_char_def is_word_char_def)

text \<open>
  Claim C1. A trigram that is already in \<open>absorbed_trigrams\<close> is not in the \<open>trigrams\<close> of
  the record that \<open>absorb\<close> returns, whatever the text (the \<open>words\<close> of a record are strings,
  so no trigram is among them), and no injection is made for it: the field after \<open>absorb\<close> is
  the field before it with exactly the trigrams of the record injected, each once, and in
  any run of calls that starts in this state the trigram is never injected. Over the life of
  an instance, from its construction, the field is the initial field with the injections
  of the run applied in order, and a trigram is injected exactly once if it is in
  \<open>absorbed_trigrams\<close> at the end and never otherwise.
\<close>

theorem trigram_absorption_idempotent:
  "(t \<in> absorbed_trigrams self \<longrightarrow>
      t \<notin> set (trigrams (fst (absorb self tx src boost now)))
    \<and> count_list (map fst (injections cs self)) t = 0)
   \<and> distinct (trigrams (fst (absorb self tx src boost now)))
   \<and> field (snd (absorb self tx src boost now)) =
       fold (\<lambda>u. inject_trigram (vocab self) u boost)
         (trigrams (fst (absorb self tx src boost now))) (field self)
   \<and> field (run cs self) =
       fold (\<lambda>(u, w). inject_trigram (vocab self) u w) (injections cs self) (field self)
   \<and> count_list (map fst (injections cs (init v cf rate mwl))) t =
       (if t \<in> absorbed_trigrams (run cs (init v cf rate mwl)) then 1 else 0)"
proof (intro conjI impI)
  assume "t \<in> absorbed_trigrams self"
  then show "t \<notin> set (trigrams (fst (absorb self tx src boost now)))"
    by (simp add: absorb_record set_fresh)
next
  assume t: "t \<in> absorbed_trigrams self"
  have "fst ` set (injections cs self) \<inter> absorbed_trigrams self = {}"
    using injections_fresh [of cs self] by (elim conjE)
  with t have "t \<notin> set (map fst (injections cs self))" by auto
  then show "count_list (map fst (injections cs self)) t = 0"
    by (simp add: count_list_0_iff)
next
  show "distinct (trigrams (fst (absorb self tx src boost now)))"
    by (simp add: absorb_record distinct_fresh)
next
  show "field (snd (absorb self tx src boost now)) =
       fold (\<lambda>u. inject_trigram (vocab self) u boost)
         (trigrams (fst (absorb self tx src boost now))) (field self)"
    by (simp add: absorb_record absorb_field)
next
  show "field (run cs self) =
       fold (\<lambda>(u, w). inject_trigram (vocab self) u w) (injections cs self) (field self)"
    by (rule run_field)
next
  let ?s = "init v cf rate mwl"
  have e: "absorbed_trigrams ?s = {}" by (simp add: init_def)
  have d: "distinct (map fst (injections cs ?s))"
    using injections_fresh [of cs ?s] by (elim conjE)
  have "absorbed_trigrams (run cs ?s) = absorbed_trigrams ?s \<union> fst ` set (injections cs ?s)"
    using injections_fresh [of cs ?s] by (elim conjE)
  then have a: "absorbed_trigrams (run cs ?s) = set (map fst (injections cs ?s))"
    unfolding e by simp
  show "count_list (map fst (injections cs ?s)) t =
       (if t \<in> absorbed_trigrams (run cs ?s) then 1 else 0)"
    unfolding a using d by (rule count_list_distinct)
qed

text \<open>
  Absorbing "a b c" twice into a fresh lexicon: the second record has no trigram, and over
  the two calls the trigram (a, b, c) is injected once.
\<close>

theorem trigram_absorption_idempotent_witness:
  "(''a'', ''b'', ''c'') \<in> absorbed_trigrams (snd (absorb lex0 ''a b c'' ''user'' 1 0))
   \<and> (''a'', ''b'', ''c'')
        \<notin> set (trigrams (fst (absorb (snd (absorb lex0 ''a b c'' ''user'' 1 0))
                                  ''a b c'' ''user'' 1 1)))
   \<and> count_list
        (map fst (injections [Absorb ''a b c'' ''user'' 1 1]
                    (snd (absorb lex0 ''a b c'' ''user'' 1 0))))
        (''a'', ''b'', ''c'') = 0
   \<and> (''a'', ''b'', ''c'')
        \<in> absorbed_trigrams
            (run [Absorb ''a b c'' ''user'' 1 0, Absorb ''a b c'' ''user'' 1 1] lex0)
   \<and> count_list
        (map fst (injections [Absorb ''a b c'' ''user'' 1 0, Absorb ''a b c'' ''user'' 1 1] lex0))
        (''a'', ''b'', ''c'') = 1"
proof -
  note T1 = trigram_absorption_idempotent [where t = "(''a'', ''b'', ''c'')"
      and self = "snd (absorb lex0 ''a b c'' ''user'' 1 0)" and tx = "''a b c''"
      and src = "''user''" and boost = 1 and now = 1
      and cs = "[Absorb ''a b c'' ''user'' 1 1]"]
  note T2 = trigram_absorption_idempotent [where t = "(''a'', ''b'', ''c'')"
      and cs = "[Absorb ''a b c'' ''user'' 1 0, Absorb ''a b c'' ''user'' 1 1]"
      and v = char_vocab and cf = empty_field and rate = "99 / 100" and mwl = 3
      and self = lex0 and tx = "''a b c''" and src = "''user''" and boost = 1 and now = 0,
      folded lex0_def]
  have h: "(''a'', ''b'', ''c'') \<in> absorbed_trigrams (snd (absorb lex0 ''a b c'' ''user'' 1 0))"
    by (simp add: absorb_absorbed_trigrams abc_trigrams)
  have k: "(''a'', ''b'', ''c'')
        \<in> absorbed_trigrams
            (run [Absorb ''a b c'' ''user'' 1 0, Absorb ''a b c'' ''user'' 1 1] lex0)"
    by (simp add: run_Cons run_Nil absorb_absorbed_trigrams abc_trigrams)
  from T1 h have p2: "(''a'', ''b'', ''c'')
        \<notin> set (trigrams (fst (absorb (snd (absorb lex0 ''a b c'' ''user'' 1 0))
                                  ''a b c'' ''user'' 1 1)))"
    by blast
  from T1 h have p3: "count_list
        (map fst (injections [Absorb ''a b c'' ''user'' 1 1]
                    (snd (absorb lex0 ''a b c'' ''user'' 1 0))))
        (''a'', ''b'', ''c'') = 0"
    by blast
  from T2 have "count_list
        (map fst (injections [Absorb ''a b c'' ''user'' 1 0, Absorb ''a b c'' ''user'' 1 1] lex0))
        (''a'', ''b'', ''c'') =
       (if (''a'', ''b'', ''c'') \<in> absorbed_trigrams
            (run [Absorb ''a b c'' ''user'' 1 0, Absorb ''a b c'' ''user'' 1 1] lex0)
        then 1 else 0)"
    by (elim conjE)
  with k have p5: "count_list
        (map fst (injections [Absorb ''a b c'' ''user'' 1 0, Absorb ''a b c'' ''user'' 1 1] lex0))
        (''a'', ''b'', ''c'') = 1"
    by (simp only: if_True)
  from h p2 p3 k p5 show ?thesis by (intro conjI)
qed

subsection \<open>C3: the sources counted by stats\<close>

lemma lastn_lastn_append: "lastn n (lastn n xs @ ys) = lastn n (xs @ ys)"
  by (cases "length xs \<le> n") (auto simp: lastn_def add.commute)

lemma lastn_short: "length xs \<le> n \<Longrightarrow> lastn n xs = xs"
  by (simp add: lastn_def)

lemma returned_records_sources: "map source (returned_records cs self) = absorb_sources cs"
proof (induction cs arbitrary: self)
  case Nil
  show ?case by simp
next
  case (Cons c cs)
  show ?case by (cases c) (simp_all add: Cons.IH absorb_record)
qed

text \<open>
  The history after a run holds the last 100 of the records it held before followed by the
  records returned in the run.
\<close>

lemma run_history:
  "length (history self) \<le> 100 \<Longrightarrow>
     history (run cs self) = lastn 100 (history self @ returned_records cs self)"
proof (induction cs arbitrary: self)
  case Nil
  then show ?case by (simp add: run_Nil lastn_short)
next
  case (Cons c cs)
  show ?case
  proof (cases c)
    case (Absorb tx src boost now)
    let ?s = "snd (absorb self tx src boost now)"
    let ?r = "fst (absorb self tx src boost now)"
    have h: "history ?s = lastn 100 (history self @ [?r])" by (rule absorb_history)
    then have "length (history ?s) \<le> 100" by (simp add: length_lastn)
    then have "history (run cs ?s) = lastn 100 (history ?s @ returned_records cs ?s)"
      by (rule Cons.IH)
    then show ?thesis
      by (simp add: Absorb run_Cons h lastn_lastn_append)
  next
    case Decay
    from Cons.prems have "length (history (snd (decay self))) \<le> 100"
      by (simp add: decay_params)
    then have "history (run cs (snd (decay self))) =
        lastn 100 (history (snd (decay self)) @ returned_records cs (snd (decay self)))"
      by (rule Cons.IH)
    then show ?thesis by (simp add: Decay run_Cons decay_params)
  qed
qed

lemma map_lastn: "map f (lastn n xs) = lastn n (map f xs)"
  by (simp add: lastn_def drop_map)

lemma run_init_sources:
  "map source (history (run cs (init v cf rate mwl))) = lastn 100 (absorb_sources cs)"
proof -
  have "length (history (init v cf rate mwl)) \<le> 100" by (simp add: init_def)
  then have "history (run cs (init v cf rate mwl)) =
      lastn 100 (history (init v cf rate mwl) @ returned_records cs (init v cf rate mwl))"
    by (rule run_history)
  then show ?thesis
    by (simp add: map_lastn returned_records_sources init_def)
qed

lemma stats_unique_sources: "unique_sources (stats self) = card (set (map source (history self)))"
  by (simp add: stats_def Let_def)

lemma absorb_sources_replicate:
  "absorb_sources (replicate n (Absorb tx src boost now)) = replicate n src"
  by (induction n) simp_all

text \<open>
  Claim C3, as the code has it. For an instance followed from its construction,
  \<open>stats().unique_sources\<close> is the number of distinct source tags among the last 100 calls of
  \<open>absorb\<close> (the records that the bounded history still holds); it is the number of distinct
  source tags of all calls as long as there were at most 100 of them.
\<close>

theorem unique_sources_recent_history:
  "unique_sources (stats (run cs (init v cf rate mwl))) = card (set (lastn 100 (absorb_sources cs)))
   \<and> (length (absorb_sources cs) \<le> 100 \<longrightarrow>
        unique_sources (stats (run cs (init v cf rate mwl))) = card (set (absorb_sources cs)))"
proof (intro conjI impI)
  show "unique_sources (stats (run cs (init v cf rate mwl))) = card (set (lastn 100 (absorb_sources cs)))"
    by (simp only: stats_unique_sources run_init_sources)
next
  assume "length (absorb_sources cs) \<le> 100"
  then have "lastn 100 (absorb_sources cs) = absorb_sources cs" by (rule lastn_short)
  then show "unique_sources (stats (run cs (init v cf rate mwl))) = card (set (absorb_sources cs))"
    by (simp only: stats_unique_sources run_init_sources)
qed

text \<open>Two calls with the tags "self" and "user": both are counted.\<close>

theorem unique_sources_recent_history_witness:
  "unique_sources (stats (run [Absorb ''hello'' ''self'' 1 0, Decay, Absorb ''hello'' ''user'' 1 1] lex0)) = 2"
proof -
  note T = unique_sources_recent_history [where cs = "[Absorb ''hello'' ''self'' 1 0, Decay, Absorb ''hello'' ''user'' 1 1]"
      and v = char_vocab and cf = empty_field and rate = "99 / 100" and mwl = 3, folded lex0_def]
  have h: "length (absorb_sources [Absorb ''hello'' ''self'' 1 0, Decay, Absorb ''hello'' ''user'' 1 1]) \<le> 100"
    by simp
  from T h have "unique_sources (stats (run [Absorb ''hello'' ''self'' 1 0, Decay, Absorb ''hello'' ''user'' 1 1] lex0))
     = card (set (absorb_sources [Absorb ''hello'' ''self'' 1 0, Decay, Absorb ''hello'' ''user'' 1 1]))"
    by blast
  then show ?thesis by simp
qed

text \<open>
  One call with the tag "self" followed by 100 calls with the tag "user": two distinct tags
  were passed to \<open>absorb\<close>, and \<open>unique_sources\<close> is 1, the first record having left the
  history.
\<close>

theorem unique_sources_truncated_counterexample:
  "unique_sources
     (stats (run (Absorb [] ''self'' 1 0 # replicate 100 (Absorb [] ''user'' 1 0)) lex0)) = 1
   \<and> card (set (absorb_sources (Absorb [] ''self'' 1 0 # replicate 100 (Absorb [] ''user'' 1 0)))) = 2"
proof
  have "map source (history (run (Absorb [] ''self'' 1 0 # replicate 100 (Absorb [] ''user'' 1 0)) lex0))
      = lastn 100 (absorb_sources (Absorb [] ''self'' 1 0 # replicate 100 (Absorb [] ''user'' 1 0)))"
    unfolding lex0_def by (rule run_init_sources)
  also have "\<dots> = replicate 100 ''user''"
    by (simp add: absorb_sources_replicate lastn_def)
  finally show "unique_sources
     (stats (run (Absorb [] ''self'' 1 0 # replicate 100 (Absorb [] ''user'' 1 0)) lex0)) = 1"
    by (simp add: stats_unique_sources)
next
  show "card (set (absorb_sources (Absorb [] ''self'' 1 0 # replicate 100 (Absorb [] ''user'' 1 0)))) = 2"
    by (simp add: absorb_sources_replicate)
qed

subsection \<open>The two loops of decay\<close>

lemma decay_item_low:
  "x * r < 1 / 10 \<Longrightarrow> decay_item r (k, x) (ww, rem, d) = (ww, rem @ [k], d + 1)"
  by (simp add: decay_item_def)

lemma decay_item_keep:
  "\<not> x * r < 1 / 10 \<Longrightarrow>
     decay_item r (k, x) (ww, rem, d) = (AList.update k (x * r) ww, rem, d)"
  by (simp add: decay_item_def)

lemma fold_decay_item:
  "distinct (map fst items) \<Longrightarrow>
   fold (decay_item r) items (ww, rem, d) = (ww', rem', d') \<Longrightarrow>
     rem' = rem @ map fst (filter (\<lambda>it. snd it * r < 1 / 10) items) \<and>
     d' = d + length (filter (\<lambda>it. snd it * r < 1 / 10) items) \<and>
     (\<forall>k. map_of ww' k =
        (case map_of items k of
           None \<Rightarrow> map_of ww k
         | Some x \<Rightarrow> if x * r < 1 / 10 then map_of ww k else Some (x * r))) \<and>
     (distinct (map fst ww) \<longrightarrow> distinct (map fst ww'))"
proof (induction items arbitrary: ww rem d)
  case Nil
  then show ?case by simp
next
  case (Cons it items)
  obtain k x where it: "it = (k, x)" by (cases it) auto
  from Cons.prems(1) have dist: "distinct (map fst items)" and nk: "map_of items k = None"
    by (auto simp: it map_of_eq_None_iff)
  show ?case
  proof (cases "x * r < 1 / 10")
    case True
    with Cons.prems(2)
    have "fold (decay_item r) items (ww, rem @ [k], d + 1) = (ww', rem', d')"
      by (simp add: it decay_item_low)
    from Cons.IH[OF dist this] True nk show ?thesis
      by (auto simp: it split: option.splits)
  next
    case False
    with Cons.prems(2)
    have "fold (decay_item r) items (AList.update k (x * r) ww, rem, d) = (ww', rem', d')"
      by (simp add: it decay_item_keep)
    from Cons.IH[OF dist this] False nk show ?thesis
      by (auto simp: it update_conv distinct_update split: option.splits)
  qed
qed

lemma remove_word_pair: "remove_word w (aw, ww) = (aw - {w}, AList.delete w ww)"
  by (simp add: remove_word_def)

lemma fold_remove_word:
  "fold remove_word rem (aw, ww) = (aw', ww') \<Longrightarrow>
     aw' = aw - set rem \<and>
     (\<forall>k. map_of ww' k = (if k \<in> set rem then None else map_of ww k)) \<and>
     (distinct (map fst ww) \<longrightarrow> distinct (map fst ww'))"
proof (induction rem arbitrary: aw ww)
  case Nil
  then show ?case by simp
next
  case (Cons w rem)
  from Cons.prems
  have "fold remove_word rem (aw - {w}, AList.delete w ww) = (aw', ww')"
    by (simp add: remove_word_pair)
  from Cons.IH[OF this] show ?case
    by (auto simp: delete_conv distinct_delete)
qed

text \<open>What \<open>decay\<close> returns and stores, for a dictionary (an association list without
  repeated keys).\<close>

lemma decay_result:
  assumes "distinct (map fst (word_weights self))"
  shows "map_of (word_weights (snd (decay self))) k =
           (case map_of (word_weights self) k of
              None \<Rightarrow> None
            | Some x \<Rightarrow> if x * decay_rate self < 1 / 10 then None
                         else Some (x * decay_rate self))"
    and "absorbed_words (snd (decay self)) =
           absorbed_words self -
             {w. \<exists>x. map_of (word_weights self) w = Some x \<and> x * decay_rate self < 1 / 10}"
    and "fst (decay self) =
           card {w. \<exists>x. map_of (word_weights self) w = Some x \<and> x * decay_rate self < 1 / 10}"
    and "distinct (map fst (word_weights (snd (decay self))))"
proof -
  let ?r = "decay_rate self" and ?ww = "word_weights self"
  let ?low = "filter (\<lambda>it. snd it * ?r < 1 / 10) ?ww"
  obtain ww1 rem d where F: "fold (decay_item ?r) ?ww (?ww, [], 0) = (ww1, rem, d)"
    by (metis prod_cases3)
  obtain aw ww2 where G: "fold remove_word rem (absorbed_words self, ww1) = (aw, ww2)"
    by (metis surj_pair)
  from F G have res: "decay self = (d, self\<lparr>absorbed_words := aw, word_weights := ww2\<rparr>)"
    by (simp add: decay_def Let_def)
  from fold_decay_item[OF assms F]
  have rem: "rem = map fst ?low" and d: "d = length ?low"
    and m1: "\<And>k. map_of ww1 k =
        (case map_of ?ww k of None \<Rightarrow> map_of ?ww k
         | Some x \<Rightarrow> if x * ?r < 1 / 10 then map_of ?ww k else Some (x * ?r))"
    and d1: "distinct (map fst ww1)"
    using assms by auto
  from fold_remove_word[OF G]
  have aw: "aw = absorbed_words self - set rem"
    and m2: "\<And>k. map_of ww2 k = (if k \<in> set rem then None else map_of ww1 k)"
    and d2: "distinct (map fst ww2)"
    using d1 by auto
  have srem: "set rem = {w. \<exists>x. map_of ?ww w = Some x \<and> x * ?r < 1 / 10}"
    unfolding rem using assms by (auto simp: image_iff)
  have "distinct (map fst ?low)"
    using assms by (simp add: distinct_map_filter)
  then have crem: "card (set rem) = length rem"
    unfolding rem by (rule distinct_card)
  show "map_of (word_weights (snd (decay self))) k =
           (case map_of ?ww k of
              None \<Rightarrow> None
            | Some x \<Rightarrow> if x * ?r < 1 / 10 then None else Some (x * ?r))"
    using srem by (auto simp: res m2 m1 split: option.splits)
  show "absorbed_words (snd (decay self)) =
           absorbed_words self - {w. \<exists>x. map_of ?ww w = Some x \<and> x * ?r < 1 / 10}"
    by (simp add: res aw srem)
  have "fst (decay self) = length rem" by (simp add: res d rem)
  also have "\<dots> = card (set rem)" by (simp only: crem)
  finally show "fst (decay self) = card {w. \<exists>x. map_of ?ww w = Some x \<and> x * ?r < 1 / 10}"
    unfolding srem .
  show "distinct (map fst (word_weights (snd (decay self))))"
    by (simp add: res d2)
qed

subsection \<open>C6: decay and rebirth\<close>

lemma extract_words_decay: "extract_words (snd (decay self)) t = extract_words self t"
  by (simp add: extract_words_def extract_words_with_def decay_params)

lemma hello_words: "extract_words lex0 ''hello'' = [''hello'']"
  by (simp add: extract_words_def extract_words_with_def extract_hello lex0_simps)

text \<open>
  Claim C6. On a weights dictionary, \<open>decay\<close> replaces every weight \<open>x\<close> by
  \<open>x * decay_rate\<close>, except that the words with \<open>x * decay_rate < 0.1\<close> are removed, these and
  no others, from \<open>word_weights\<close> and from \<open>absorbed_words\<close>; it returns their number. A word
  removed in this way that occurs in the extracted words of a later text is new for
  \<open>absorb\<close>: it is in the \<open>words\<close> of the returned record, once, and its first occurrence sets
  its weight to the boost, each further occurrence in the same text reinforcing it; so the
  weight after the call is the boost reinforced once per further occurrence, and the boost
  itself when the word occurs once.
\<close>

theorem decay_removes_and_rebirth:
  "distinct (map fst (word_weights self)) \<Longrightarrow>
     (\<forall>k. map_of (word_weights (snd (decay self))) k =
        (case map_of (word_weights self) k of
           None \<Rightarrow> None
         | Some y \<Rightarrow> if y * decay_rate self < 1 / 10 then None
                      else Some (y * decay_rate self)))
   \<and> absorbed_words (snd (decay self)) =
       absorbed_words self -
         {k. \<exists>y. map_of (word_weights self) k = Some y \<and> y * decay_rate self < 1 / 10}
   \<and> fst (decay self) =
       card {k. \<exists>y. map_of (word_weights self) k = Some y \<and> y * decay_rate self < 1 / 10}
   \<and> (map_of (word_weights self) w = Some x \<and> x * decay_rate self < 1 / 10
        \<and> w \<in> set (extract_words self tx) \<longrightarrow>
          w \<in> set (words (fst (absorb (snd (decay self)) tx src boost now)))
        \<and> count_list (words (fst (absorb (snd (decay self)) tx src boost now))) w = 1
        \<and> map_of (word_weights (snd (absorb (snd (decay self)) tx src boost now))) w =
            Some ((reinforce ^^ (count_list (extract_words self tx) w - 1)) boost)
        \<and> (count_list (extract_words self tx) w = 1 \<longrightarrow>
             map_of (word_weights (snd (absorb (snd (decay self)) tx src boost now))) w =
               Some boost))"
proof -
  assume dist: "distinct (map fst (word_weights self))"
  let ?s = "snd (decay self)"
  let ?low = "{k. \<exists>y. map_of (word_weights self) k = Some y \<and> y * decay_rate self < 1 / 10}"
  have a: "\<forall>k. map_of (word_weights ?s) k =
        (case map_of (word_weights self) k of
           None \<Rightarrow> None
         | Some y \<Rightarrow> if y * decay_rate self < 1 / 10 then None
                      else Some (y * decay_rate self))"
    using decay_result(1)[OF dist] by blast
  have b: "absorbed_words ?s = absorbed_words self - ?low"
    by (rule decay_result(2)[OF dist])
  have c: "fst (decay self) = card ?low"
    by (rule decay_result(3)[OF dist])
  have d: "map_of (word_weights self) w = Some x \<and> x * decay_rate self < 1 / 10
        \<and> w \<in> set (extract_words self tx) \<longrightarrow>
          w \<in> set (words (fst (absorb ?s tx src boost now)))
        \<and> count_list (words (fst (absorb ?s tx src boost now))) w = 1
        \<and> map_of (word_weights (snd (absorb ?s tx src boost now))) w =
            Some ((reinforce ^^ (count_list (extract_words self tx) w - 1)) boost)
        \<and> (count_list (extract_words self tx) w = 1 \<longrightarrow>
             map_of (word_weights (snd (absorb ?s tx src boost now))) w = Some boost)"
  proof (intro impI)
    assume h: "map_of (word_weights self) w = Some x \<and> x * decay_rate self < 1 / 10
        \<and> w \<in> set (extract_words self tx)"
    then have "w \<in> ?low" by blast
    then have nw: "w \<notin> absorbed_words ?s" unfolding b by simp
    from h have inw: "w \<in> set (extract_words ?s tx)" by (simp add: extract_words_decay)
    have rec: "words (fst (absorb ?s tx src boost now)) =
                 fresh (absorbed_words ?s) (extract_words ?s tx)"
      by (simp add: absorb_record)
    have 1: "w \<in> set (words (fst (absorb ?s tx src boost now)))"
      unfolding rec using nw inw by (simp add: set_fresh)
    have "distinct (words (fst (absorb ?s tx src boost now)))"
      unfolding rec by (rule distinct_fresh)
    then have 2: "count_list (words (fst (absorb ?s tx src boost now))) w = 1"
      using 1 by (simp add: count_list_distinct)
    have 3: "map_of (word_weights (snd (absorb ?s tx src boost now))) w =
            Some ((reinforce ^^ (count_list (extract_words self tx) w - 1)) boost)"
      using nw inw by (simp add: absorb_word_weights extract_words_decay)
    have 4: "count_list (extract_words self tx) w = 1 \<longrightarrow>
             map_of (word_weights (snd (absorb ?s tx src boost now))) w = Some boost"
      using 3 by simp
    from 1 2 3 4
    show "w \<in> set (words (fst (absorb ?s tx src boost now)))
        \<and> count_list (words (fst (absorb ?s tx src boost now))) w = 1
        \<and> map_of (word_weights (snd (absorb ?s tx src boost now))) w =
            Some ((reinforce ^^ (count_list (extract_words self tx) w - 1)) boost)
        \<and> (count_list (extract_words self tx) w = 1 \<longrightarrow>
             map_of (word_weights (snd (absorb ?s tx src boost now))) w = Some boost)"
      by (intro conjI)
  qed
  from a b c d show ?thesis by (intro conjI)
qed

text \<open>
  With decay rate 0.99, the word "hello" absorbed at weight 0.1 is removed by the first
  \<open>decay\<close>, which returns 1; absorbed again with boost 1, it is reported as new and weighs 1.
\<close>

theorem decay_removes_and_rebirth_witness:
  "map_of (word_weights (snd (absorb lex0 ''hello'' ''user'' (1 / 10) 0))) ''hello'' = Some (1 / 10)
   \<and> fst (decay (snd (absorb lex0 ''hello'' ''user'' (1 / 10) 0))) = 1
   \<and> ''hello'' \<notin> absorbed_words (snd (decay (snd (absorb lex0 ''hello'' ''user'' (1 / 10) 0))))
   \<and> map_of (word_weights (snd (decay (snd (absorb lex0 ''hello'' ''user'' (1 / 10) 0))))) ''hello'' = None
   \<and> ''hello'' \<in> set (words (fst (absorb (snd (decay (snd (absorb lex0 ''hello'' ''user'' (1 / 10) 0)))) ''hello'' ''user'' 1 1)))
   \<and> map_of (word_weights (snd (absorb (snd (decay (snd (absorb lex0 ''hello'' ''user'' (1 / 10) 0)))) ''hello'' ''user'' 1 1))) ''hello''
       = Some 1"
proof -
  note T = decay_removes_and_rebirth [where self = "(snd (absorb lex0 ''hello'' ''user'' (1 / 10) 0))" and w = "''hello''" and x = "1 / 10"
      and tx = "''hello''" and src = "''user''" and boost = 1 and now = 1]
  have dist: "distinct (map fst (word_weights (snd (absorb lex0 ''hello'' ''user'' (1 / 10) 0))))"
    by (simp add: absorb_distinct lex0_simps)
  have m: "map_of (word_weights (snd (absorb lex0 ''hello'' ''user'' (1 / 10) 0))) k = (if k = ''hello'' then Some (1 / 10) else None)" for k
    by (simp add: absorb_word_weights hello_words lex0_simps)
  have r: "decay_rate (snd (absorb lex0 ''hello'' ''user'' (1 / 10) 0)) = 99 / 100"
    by (simp add: absorb_params lex0_simps)
  have aw: "absorbed_words (snd (absorb lex0 ''hello'' ''user'' (1 / 10) 0)) = {''hello''}"
    by (simp add: absorb_absorbed_words hello_words lex0_simps)
  have low: "{k. \<exists>y. map_of (word_weights (snd (absorb lex0 ''hello'' ''user'' (1 / 10) 0))) k = Some y \<and> y * decay_rate (snd (absorb lex0 ''hello'' ''user'' (1 / 10) 0)) < 1 / 10}
               = {''hello''}"
  proof -
    have "(\<exists>y. map_of (word_weights (snd (absorb lex0 ''hello'' ''user'' (1 / 10) 0))) k = Some y \<and> y * decay_rate (snd (absorb lex0 ''hello'' ''user'' (1 / 10) 0)) < 1 / 10)
            = (k = ''hello'')" for k
    proof (cases "k = ''hello''")
      case True
      have "map_of (word_weights (snd (absorb lex0 ''hello'' ''user'' (1 / 10) 0))) k = Some (1 / 10) \<and> (1 / 10) * decay_rate (snd (absorb lex0 ''hello'' ''user'' (1 / 10) 0)) < 1 / 10"
        by (simp add: m r True)
      then show ?thesis using True by blast
    next
      case False
      then show ?thesis by (simp add: m)
    qed
    then show ?thesis by simp
  qed
  have hyp: "map_of (word_weights (snd (absorb lex0 ''hello'' ''user'' (1 / 10) 0))) ''hello'' = Some (1 / 10)
               \<and> (1 / 10) * decay_rate (snd (absorb lex0 ''hello'' ''user'' (1 / 10) 0)) < 1 / 10
               \<and> ''hello'' \<in> set (extract_words (snd (absorb lex0 ''hello'' ''user'' (1 / 10) 0)) ''hello'')"
    by (simp add: m r extract_words_absorb hello_words)
  have cnt: "count_list (extract_words (snd (absorb lex0 ''hello'' ''user'' (1 / 10) 0)) ''hello'') ''hello'' = 1"
    by (simp add: extract_words_absorb hello_words)
  from hyp have p1: "map_of (word_weights (snd (absorb lex0 ''hello'' ''user'' (1 / 10) 0))) ''hello'' = Some (1 / 10)" by (elim conjE)
  from T[OF dist] have "fst (decay (snd (absorb lex0 ''hello'' ''user'' (1 / 10) 0))) =
      card {k. \<exists>y. map_of (word_weights (snd (absorb lex0 ''hello'' ''user'' (1 / 10) 0))) k = Some y \<and> y * decay_rate (snd (absorb lex0 ''hello'' ''user'' (1 / 10) 0)) < 1 / 10}"
    by (elim conjE)
  then have p2: "fst (decay (snd (absorb lex0 ''hello'' ''user'' (1 / 10) 0))) = 1" unfolding low by simp
  from T[OF dist] have "absorbed_words (snd (decay (snd (absorb lex0 ''hello'' ''user'' (1 / 10) 0)))) = absorbed_words (snd (absorb lex0 ''hello'' ''user'' (1 / 10) 0)) -
      {k. \<exists>y. map_of (word_weights (snd (absorb lex0 ''hello'' ''user'' (1 / 10) 0))) k = Some y \<and> y * decay_rate (snd (absorb lex0 ''hello'' ''user'' (1 / 10) 0)) < 1 / 10}"
    by (elim conjE)
  then have p3: "''hello'' \<notin> absorbed_words (snd (decay (snd (absorb lex0 ''hello'' ''user'' (1 / 10) 0))))" unfolding low aw by simp
  from T[OF dist] have "\<forall>k. map_of (word_weights (snd (decay (snd (absorb lex0 ''hello'' ''user'' (1 / 10) 0))))) k =
        (case map_of (word_weights (snd (absorb lex0 ''hello'' ''user'' (1 / 10) 0))) k of
           None \<Rightarrow> None
         | Some y \<Rightarrow> if y * decay_rate (snd (absorb lex0 ''hello'' ''user'' (1 / 10) 0)) < 1 / 10 then None
                      else Some (y * decay_rate (snd (absorb lex0 ''hello'' ''user'' (1 / 10) 0))))"
    by (elim conjE)
  then have p4: "map_of (word_weights (snd (decay (snd (absorb lex0 ''hello'' ''user'' (1 / 10) 0))))) ''hello'' = None"
    by (simp add: m r)
  from T[OF dist] hyp
  have p5: "''hello'' \<in> set (words (fst (absorb (snd (decay (snd (absorb lex0 ''hello'' ''user'' (1 / 10) 0)))) ''hello'' ''user'' 1 1)))"
    by blast
  from T[OF dist] hyp cnt
  have p6: "map_of (word_weights (snd (absorb (snd (decay (snd (absorb lex0 ''hello'' ''user'' (1 / 10) 0)))) ''hello'' ''user'' 1 1))) ''hello''
       = Some 1"
    by blast
  from p1 p2 p3 p4 p5 p6 show ?thesis by (intro conjI)
qed

subsection \<open>C2: the weights dictionary and the absorbed words\<close>

lemma absorb_keys_inv:
  assumes "distinct (map fst (word_weights self))"
    and "fst ` set (word_weights self) = absorbed_words self"
  shows "distinct (map fst (word_weights (snd (absorb self tx src boost now))))"
    and "fst ` set (word_weights (snd (absorb self tx src boost now))) =
           absorbed_words (snd (absorb self tx src boost now))"
proof -
  show "distinct (map fst (word_weights (snd (absorb self tx src boost now))))"
    using assms(1) by (rule absorb_distinct)
  show "fst ` set (word_weights (snd (absorb self tx src boost now))) =
           absorbed_words (snd (absorb self tx src boost now))"
    by (simp only: absorb_keys absorb_absorbed_words assms(2))
qed

lemma decay_keys_inv:
  assumes "distinct (map fst (word_weights self))"
    and "fst ` set (word_weights self) = absorbed_words self"
  shows "distinct (map fst (word_weights (snd (decay self))))"
    and "fst ` set (word_weights (snd (decay self))) = absorbed_words (snd (decay self))"
proof -
  show "distinct (map fst (word_weights (snd (decay self))))"
    using assms(1) by (rule decay_result(4))
  have "dom (map_of (word_weights (snd (decay self)))) =
          dom (map_of (word_weights self)) -
            {k. \<exists>y. map_of (word_weights self) k = Some y \<and> y * decay_rate self < 1 / 10}"
    by (auto simp: decay_result(1)[OF assms(1)] split: option.splits if_splits)
  then show "fst ` set (word_weights (snd (decay self))) = absorbed_words (snd (decay self))"
    by (simp add: dom_map_of_conv_image_fst decay_result(2)[OF assms(1)] assms(2))
qed

lemma reinforce_range:
  "0 < x \<Longrightarrow> x \<le> 2 \<Longrightarrow> 0 < (reinforce ^^ n) x \<and> (reinforce ^^ n) x \<le> 2"
  by (induction n) (auto simp: reinforce_def)

lemma absorb_range:
  assumes "\<forall>k x. map_of (word_weights self) k = Some x \<longrightarrow> 0 < x \<and> x \<le> 2"
    and "0 < boost" and "boost \<le> 2"
    and "map_of (word_weights (snd (absorb self tx src boost now))) k = Some x"
  shows "0 < x \<and> x \<le> 2"
proof -
  have g: "0 < weight_get (word_weights self) k 1 \<and> weight_get (word_weights self) k 1 \<le> 2"
    using assms(1) by (auto simp: weight_get_def split: option.splits)
  from assms(4) consider
      "map_of (word_weights self) k = Some x"
    | n where "x = (reinforce ^^ n) (weight_get (word_weights self) k 1)"
    | n where "x = (reinforce ^^ n) boost"
    by (auto simp: absorb_word_weights split: if_splits)
  then show ?thesis
  proof cases
    case 1
    with assms(1) show ?thesis by blast
  next
    case 2
    with g show ?thesis by (simp add: reinforce_range)
  next
    case 3
    with assms(2,3) show ?thesis by (simp add: reinforce_range)
  qed
qed

lemma decay_range:
  assumes "distinct (map fst (word_weights self))"
    and "\<forall>k x. map_of (word_weights self) k = Some x \<longrightarrow> 0 < x \<and> x \<le> 2"
    and "decay_rate self \<le> 1"
    and "map_of (word_weights (snd (decay self))) k = Some x"
  shows "0 < x \<and> x \<le> 2"
proof -
  from assms(4) obtain y where y: "map_of (word_weights self) k = Some y"
    and x: "x = y * decay_rate self" and nl: "\<not> y * decay_rate self < 1 / 10"
    by (auto simp: decay_result(1)[OF assms(1)] split: option.splits if_splits)
  from assms(2) y have yr: "0 < y" "y \<le> 2" by auto
  from yr(1) assms(3) have "y * decay_rate self \<le> y * 1"
    by (intro mult_left_mono) simp_all
  with yr(2) nl show ?thesis unfolding x by simp
qed

lemma exec_call_decay_rate: "decay_rate (exec_call c self) = decay_rate self"
  by (cases c) (simp_all add: absorb_params decay_params)

lemma run_keys_inv:
  "distinct (map fst (word_weights self)) \<Longrightarrow>
   fst ` set (word_weights self) = absorbed_words self \<Longrightarrow>
     distinct (map fst (word_weights (run cs self))) \<and>
     fst ` set (word_weights (run cs self)) = absorbed_words (run cs self)"
proof (induction cs arbitrary: self)
  case Nil
  then show ?case by (simp add: run_Nil)
next
  case (Cons c cs)
  have "distinct (map fst (word_weights (exec_call c self))) \<and>
        fst ` set (word_weights (exec_call c self)) = absorbed_words (exec_call c self)"
  proof (cases c)
    case (Absorb tx src boost now)
    show ?thesis
      unfolding Absorb exec_call.simps
      using absorb_keys_inv[OF Cons.prems] by (intro conjI)
  next
    case Decay
    show ?thesis
      unfolding Decay exec_call.simps
      using decay_keys_inv[OF Cons.prems] by (intro conjI)
  qed
  then show ?case
    unfolding run_Cons using Cons.IH by blast
qed

lemma run_range_inv:
  "distinct (map fst (word_weights self)) \<Longrightarrow>
   fst ` set (word_weights self) = absorbed_words self \<Longrightarrow>
   \<forall>k x. map_of (word_weights self) k = Some x \<longrightarrow> 0 < x \<and> x \<le> 2 \<Longrightarrow>
   decay_rate self \<le> 1 \<Longrightarrow> boosts_in_range cs \<Longrightarrow>
     \<forall>k x. map_of (word_weights (run cs self)) k = Some x \<longrightarrow> 0 < x \<and> x \<le> 2"
proof (induction cs arbitrary: self)
  case Nil
  then show ?case by (simp add: run_Nil)
next
  case (Cons c cs)
  let ?s = "exec_call c self"
  have k: "distinct (map fst (word_weights ?s))" "fst ` set (word_weights ?s) = absorbed_words ?s"
    using run_keys_inv[OF Cons.prems(1,2), of "[c]"] by (simp_all add: run_Cons run_Nil)
  have r: "decay_rate ?s \<le> 1"
    using Cons.prems(4) by (simp add: exec_call_decay_rate)
  have b: "boosts_in_range cs"
    using Cons.prems(5) by (cases c) simp_all
  have "\<forall>k x. map_of (word_weights ?s) k = Some x \<longrightarrow> 0 < x \<and> x \<le> 2"
  proof (cases c)
    case (Absorb tx src boost now)
    with Cons.prems(5) have bb: "0 < boost" "boost \<le> 2" by simp_all
    show ?thesis
      unfolding Absorb exec_call.simps
    proof (intro allI impI)
      fix k x
      assume "map_of (word_weights (snd (absorb self tx src boost now))) k = Some x"
      with Cons.prems(3) bb show "0 < x \<and> x \<le> 2" by (rule absorb_range)
    qed
  next
    case Decay
    show ?thesis
      unfolding Decay exec_call.simps
    proof (intro allI impI)
      fix k x
      assume "map_of (word_weights (snd (decay self))) k = Some x"
      with Cons.prems(1,3,4) show "0 < x \<and> x \<le> 2" by (rule decay_range)
    qed
  qed
  from Cons.IH[OF k this r b] show ?case by (simp add: run_Cons)
qed

lemma hello_world_words: "extract_words lex0 ''hello world'' = [''hello'', ''world'']"
  by (simp add: extract_words_def extract_words_with_def extract_hello_world lex0_simps)

text \<open>
  Claim C2, as the code has it. In every state reached from the construction of an instance
  by \<open>absorb\<close> and \<open>decay\<close> calls, whatever their arguments, \<open>word_weights\<close> has one entry for
  each word of \<open>absorbed_words\<close> and no other entry. If moreover the decay rate is at most 1
  and every boost passed to \<open>absorb\<close> lies in (0, 2], every weight lies in (0, 2].
\<close>

theorem weights_invariant:
  "distinct (map fst (word_weights (run cs (init v cf rate mwl))))
   \<and> fst ` set (word_weights (run cs (init v cf rate mwl))) =
       absorbed_words (run cs (init v cf rate mwl))
   \<and> (rate \<le> 1 \<and> boosts_in_range cs \<longrightarrow>
        (\<forall>(w, x) \<in> set (word_weights (run cs (init v cf rate mwl))). 0 < x \<and> x \<le> 2))"
proof -
  let ?s = "init v cf rate mwl"
  have i1: "distinct (map fst (word_weights ?s))"
    and i2: "fst ` set (word_weights ?s) = absorbed_words ?s"
    and i3: "\<forall>k x. map_of (word_weights ?s) k = Some x \<longrightarrow> 0 < x \<and> x \<le> 2"
    and i4: "decay_rate ?s = rate"
    by (simp_all add: init_def)
  from run_keys_inv[OF i1 i2, of cs]
  have k: "distinct (map fst (word_weights (run cs ?s)))"
    "fst ` set (word_weights (run cs ?s)) = absorbed_words (run cs ?s)"
    by simp_all
  have r: "rate \<le> 1 \<and> boosts_in_range cs \<longrightarrow>
        (\<forall>(w, x) \<in> set (word_weights (run cs ?s)). 0 < x \<and> x \<le> 2)"
  proof (intro impI)
    assume h: "rate \<le> 1 \<and> boosts_in_range cs"
    then have "decay_rate ?s \<le> 1" and "boosts_in_range cs" by (simp_all add: i4)
    with run_range_inv[OF i1 i2 i3]
    have m: "\<forall>k x. map_of (word_weights (run cs ?s)) k = Some x \<longrightarrow> 0 < x \<and> x \<le> 2"
      by blast
    show "\<forall>(w, x) \<in> set (word_weights (run cs ?s)). 0 < x \<and> x \<le> 2"
    proof (clarify)
      fix w x
      assume "(w, x) \<in> set (word_weights (run cs ?s))"
      with k(1) have "map_of (word_weights (run cs ?s)) w = Some x" by (rule map_of_is_SomeI)
      with m show "0 < x \<and> x \<le> 2" by blast
    qed
  qed
  from k r show ?thesis by (intro conjI)
qed

text \<open>
  "hello world" absorbed at boost 1, "hello" reinforced to 1.1, then a decay at rate 0.99:
  the weight of "hello" is 1.089, and the keys are the absorbed words.
\<close>

theorem weights_invariant_witness:
  "(99 / 100 :: real) \<le> 1
   \<and> boosts_in_range [Absorb ''hello world'' ''user'' 1 0, Absorb ''hello'' ''self'' 1 1, Decay]
   \<and> (''hello'', 1089 / 1000) \<in> set (word_weights (run [Absorb ''hello world'' ''user'' 1 0, Absorb ''hello'' ''self'' 1 1, Decay] lex0))
   \<and> (0 :: real) < 1089 / 1000 \<and> (1089 / 1000 :: real) \<le> 2
   \<and> fst ` set (word_weights (run [Absorb ''hello world'' ''user'' 1 0, Absorb ''hello'' ''self'' 1 1, Decay] lex0)) = absorbed_words (run [Absorb ''hello world'' ''user'' 1 0, Absorb ''hello'' ''self'' 1 1, Decay] lex0)"
proof -
  note T = weights_invariant [where cs = "[Absorb ''hello world'' ''user'' 1 0, Absorb ''hello'' ''self'' 1 1, Decay]" and v = char_vocab and cf = empty_field
      and rate = "99 / 100" and mwl = 3, folded lex0_def]
  let ?s1 = "snd (absorb lex0 ''hello world'' ''user'' 1 0)"
  let ?s2 = "snd (absorb ?s1 ''hello'' ''self'' 1 1)"
  have h1: "(99 / 100 :: real) \<le> 1" by simp
  have h2: "boosts_in_range [Absorb ''hello world'' ''user'' 1 0, Absorb ''hello'' ''self'' 1 1, Decay]" by simp
  have rn: "run [Absorb ''hello world'' ''user'' 1 0, Absorb ''hello'' ''self'' 1 1, Decay] lex0 = snd (decay ?s2)"
    by (simp add: run_Cons run_Nil)
  have d2: "distinct (map fst (word_weights ?s2))"
    by (simp add: absorb_distinct lex0_simps)
  have m1: "map_of (word_weights ?s1) ''hello'' = Some 1"
    by (simp add: absorb_word_weights hello_world_words lex0_simps)
  have wg: "weight_get (word_weights ?s1) ''hello'' 1 = 1"
    by (simp add: weight_get_def m1)
  have a1: "''hello'' \<in> absorbed_words ?s1"
    by (simp add: absorb_absorbed_words hello_world_words lex0_simps)
  have m2: "map_of (word_weights ?s2) ''hello'' = Some (11 / 10)"
    using a1 by (simp add: absorb_word_weights extract_words_absorb hello_words wg
          reinforce_def)
  have r2: "decay_rate ?s2 = 99 / 100"
    by (simp add: absorb_params lex0_simps)
  have "map_of (word_weights (snd (decay ?s2))) ''hello'' = Some (1089 / 1000)"
    by (simp add: decay_result(1)[OF d2] m2 r2)
  then have p3: "(''hello'', 1089 / 1000) \<in> set (word_weights (run [Absorb ''hello world'' ''user'' 1 0, Absorb ''hello'' ''self'' 1 1, Decay] lex0))"
    unfolding rn by (rule map_of_SomeD)
  from T h1 h2 have "\<forall>(w, x) \<in> set (word_weights (run [Absorb ''hello world'' ''user'' 1 0, Absorb ''hello'' ''self'' 1 1, Decay] lex0)). 0 < x \<and> x \<le> 2"
    by blast
  with p3 have p4: "(0 :: real) < 1089 / 1000 \<and> (1089 / 1000 :: real) \<le> 2"
    by blast
  from T have p5: "fst ` set (word_weights (run [Absorb ''hello world'' ''user'' 1 0, Absorb ''hello'' ''self'' 1 1, Decay] lex0)) = absorbed_words (run [Absorb ''hello world'' ''user'' 1 0, Absorb ''hello'' ''self'' 1 1, Decay] lex0)"
    by (elim conjE)
  from h1 h2 p3 p4 p5 show ?thesis by blast
qed

text \<open>
  One call \<open>absorb("hello", "user", 5.0)\<close> on a fresh instance: the weight of "hello" is 5,
  above 2.
\<close>

theorem weight_above_cap_counterexample:
  "(''hello'', 5) \<in> set (word_weights (run [Absorb ''hello'' ''user'' 5 0] lex0))
   \<and> \<not> (5 :: real) \<le> 2"
proof
  have "map_of (word_weights (run [Absorb ''hello'' ''user'' 5 0] lex0)) ''hello'' = Some 5"
    by (simp add: run_Cons run_Nil absorb_word_weights hello_words lex0_simps)
  then show "(''hello'', 5) \<in> set (word_weights (run [Absorb ''hello'' ''user'' 5 0] lex0))"
    by (rule map_of_SomeD)
next
  show "\<not> (5 :: real) \<le> 2" by simp
qed

subsection \<open>C7: reinforcement\<close>

lemma reinforce_le_cap: "reinforce x \<le> 2"
  by (simp add: reinforce_def)

lemma reinforce_mono: "x \<le> 2 \<Longrightarrow> x \<le> reinforce x"
  by (simp add: reinforce_def)

lemma reinforce_funpow: "(reinforce ^^ Suc n) x = min 2 (x + (real n + 1) / 10)"
proof (induction n)
  case 0
  show ?case by (simp add: reinforce_def)
next
  case (Suc n)
  have "(reinforce ^^ Suc (Suc n)) x = reinforce ((reinforce ^^ Suc n) x)" by simp
  also have "\<dots> = reinforce (min 2 (x + (real n + 1) / 10))" by (simp only: Suc.IH)
  also have "\<dots> = min 2 (x + (real (Suc n) + 1) / 10)"
    by (simp add: reinforce_def min_def field_simps)
  finally show ?case .
qed

lemma reinforce_reaches_cap:
  assumes "Suc (nat \<lceil>(2 - x) * 10\<rceil>) \<le> m"
  shows "(reinforce ^^ m) x = 2"
proof -
  from assms obtain n where m: "m = Suc n" and n: "nat \<lceil>(2 - x) * 10\<rceil> \<le> n"
    by (cases m) auto
  have "(2 - x) * 10 \<le> real_of_int \<lceil>(2 - x) * 10\<rceil>" by (rule le_of_int_ceiling)
  also have "\<dots> \<le> real (nat \<lceil>(2 - x) * 10\<rceil>)" by simp
  also have "\<dots> \<le> real n" using n by simp
  finally have "2 \<le> x + (real n + 1) / 10" by (simp add: field_simps)
  then show ?thesis unfolding m reinforce_funpow by simp
qed

text \<open>
  Claim C7, as the code has it. For a word that is already in \<open>absorbed_words\<close>, \<open>absorb\<close>
  replaces its weight \<open>old\<close> by \<open>min(2.0, old + 0.1)\<close> once per occurrence of the word in the
  extracted words, whatever the boost (and leaves it alone if the word does not occur). One
  reinforcement never gives more than 2; it does not lower a weight that is at most 2; and
  from any weight \<open>x\<close>, after \<open>1 + ceil(10 (2 - x))\<close> reinforcements or more (one, if \<open>x\<close> is above 2)
  the weight is exactly 2.
\<close>

theorem reinforcement_capped:
  "(w \<in> absorbed_words self \<and> map_of (word_weights self) w = Some old \<longrightarrow>
      map_of (word_weights (snd (absorb self tx src boost now))) w =
        Some ((reinforce ^^ count_list (extract_words self tx) w) old)
    \<and> (count_list (extract_words self tx) w = 1 \<longrightarrow>
         map_of (word_weights (snd (absorb self tx src boost now))) w =
           Some (min 2 (old + 1 / 10))))
   \<and> reinforce x = min 2 (x + 1 / 10)
   \<and> (\<forall>n. (reinforce ^^ Suc n) x \<le> 2)
   \<and> (x \<le> 2 \<longrightarrow> (\<forall>n. (reinforce ^^ n) x \<le> (reinforce ^^ Suc n) x))
   \<and> (\<forall>m \<ge> Suc (nat \<lceil>(2 - x) * 10\<rceil>). (reinforce ^^ m) x = 2)"
proof -
  have a: "w \<in> absorbed_words self \<and> map_of (word_weights self) w = Some old \<longrightarrow>
      map_of (word_weights (snd (absorb self tx src boost now))) w =
        Some ((reinforce ^^ count_list (extract_words self tx) w) old)
    \<and> (count_list (extract_words self tx) w = 1 \<longrightarrow>
         map_of (word_weights (snd (absorb self tx src boost now))) w =
           Some (min 2 (old + 1 / 10)))"
  proof (intro impI)
    assume h: "w \<in> absorbed_words self \<and> map_of (word_weights self) w = Some old"
    then have g: "weight_get (word_weights self) w 1 = old" by (simp add: weight_get_def)
    have 1: "map_of (word_weights (snd (absorb self tx src boost now))) w =
        Some ((reinforce ^^ count_list (extract_words self tx) w) old)"
    proof (cases "w \<in> set (extract_words self tx)")
      case True
      with h g show ?thesis by (simp add: absorb_word_weights)
    next
      case False
      then have "count_list (extract_words self tx) w = 0" by (simp add: count_list_0_iff)
      with False h show ?thesis by (simp add: absorb_word_weights)
    qed
    have 2: "count_list (extract_words self tx) w = 1 \<longrightarrow>
         map_of (word_weights (snd (absorb self tx src boost now))) w =
           Some (min 2 (old + 1 / 10))"
      by (simp add: 1 reinforce_def)
    from 1 2 show "map_of (word_weights (snd (absorb self tx src boost now))) w =
        Some ((reinforce ^^ count_list (extract_words self tx) w) old)
      \<and> (count_list (extract_words self tx) w = 1 \<longrightarrow>
         map_of (word_weights (snd (absorb self tx src boost now))) w =
           Some (min 2 (old + 1 / 10)))"
      by (intro conjI)
  qed
  have b: "reinforce x = min 2 (x + 1 / 10)" by (rule reinforce_def)
  have c: "\<forall>n. (reinforce ^^ Suc n) x \<le> 2" by (simp add: reinforce_le_cap)
  have d: "x \<le> 2 \<longrightarrow> (\<forall>n. (reinforce ^^ n) x \<le> (reinforce ^^ Suc n) x)"
  proof (intro impI allI)
    fix n
    assume x: "x \<le> 2"
    have "(reinforce ^^ n) x \<le> 2"
    proof (cases n)
      case 0
      with x show ?thesis by simp
    next
      case (Suc k)
      then show ?thesis by (simp add: reinforce_le_cap)
    qed
    then have "(reinforce ^^ n) x \<le> reinforce ((reinforce ^^ n) x)" by (rule reinforce_mono)
    then show "(reinforce ^^ n) x \<le> (reinforce ^^ Suc n) x" by simp
  qed
  have e: "\<forall>m \<ge> Suc (nat \<lceil>(2 - x) * 10\<rceil>). (reinforce ^^ m) x = 2"
    by (simp add: reinforce_reaches_cap)
  from a b c d e show ?thesis by (intro conjI)
qed

text \<open>
  "hello" absorbed at weight 1 and met again in a call with boost 5 weighs 1.1; from 1,
  eleven reinforcements give exactly 2.
\<close>

theorem reinforcement_capped_witness:
  "''hello'' \<in> absorbed_words (snd (absorb lex0 ''hello'' ''user'' 1 0))
   \<and> map_of (word_weights (snd (absorb lex0 ''hello'' ''user'' 1 0))) ''hello'' = Some 1
   \<and> map_of (word_weights (snd (absorb (snd (absorb lex0 ''hello'' ''user'' 1 0)) ''hello'' ''user'' 5 1))) ''hello'' = Some (11 / 10)
   \<and> (1 :: real) \<le> reinforce 1
   \<and> (reinforce ^^ 11) 1 = 2"
proof -
  note T = reinforcement_capped [where w = "''hello''" and self = "(snd (absorb lex0 ''hello'' ''user'' 1 0))" and old = 1
      and tx = "''hello''" and src = "''user''" and boost = 5 and now = 1 and x = 1]
  have h: "''hello'' \<in> absorbed_words (snd (absorb lex0 ''hello'' ''user'' 1 0)) \<and> map_of (word_weights (snd (absorb lex0 ''hello'' ''user'' 1 0))) ''hello'' = Some 1"
    by (simp add: absorb_absorbed_words absorb_word_weights hello_words lex0_simps)
  have c: "count_list (extract_words (snd (absorb lex0 ''hello'' ''user'' 1 0)) ''hello'') ''hello'' = 1"
    by (simp add: extract_words_absorb hello_words)
  have x: "(1 :: real) \<le> 2" by simp
  have m: "Suc (nat \<lceil>(2 - (1 :: real)) * 10\<rceil>) \<le> 11" by simp
  from T h c
  have "map_of (word_weights (snd (absorb (snd (absorb lex0 ''hello'' ''user'' 1 0)) ''hello'' ''user'' 5 1))) ''hello''
          = Some (min 2 (1 + 1 / 10))"
    by blast
  then have p3: "map_of (word_weights (snd (absorb (snd (absorb lex0 ''hello'' ''user'' 1 0)) ''hello'' ''user'' 5 1))) ''hello''
          = Some (11 / 10)"
    by simp
  from T x have "(reinforce ^^ 0) 1 \<le> (reinforce ^^ Suc 0) (1 :: real)" by blast
  then have p4: "(1 :: real) \<le> reinforce 1" by simp
  from T m have p5: "(reinforce ^^ 11) 1 = (2 :: real)" by blast
  from h p3 p4 p5 show ?thesis by blast
qed

text \<open>
  "hello" absorbed with boost 5 weighs 5; met again, it weighs 2: the reinforcement has
  lowered the weight.
\<close>

theorem reinforcement_lowers_counterexample:
  "map_of (word_weights (snd (absorb lex0 ''hello'' ''user'' 5 0))) ''hello'' = Some 5
   \<and> map_of (word_weights (snd (absorb (snd (absorb lex0 ''hello'' ''user'' 5 0)) ''hello'' ''user'' 1 1))) ''hello'' = Some 2
   \<and> (2 :: real) < 5"
proof (intro conjI)
  show m: "map_of (word_weights (snd (absorb lex0 ''hello'' ''user'' 5 0))) ''hello'' = Some 5"
    by (simp add: absorb_word_weights hello_words lex0_simps)
  have g: "weight_get (word_weights (snd (absorb lex0 ''hello'' ''user'' 5 0))) ''hello'' 1 = 5"
    by (simp add: weight_get_def m)
  have a: "''hello'' \<in> absorbed_words (snd (absorb lex0 ''hello'' ''user'' 5 0))"
    by (simp add: absorb_absorbed_words hello_words lex0_simps)
  show "map_of (word_weights (snd (absorb (snd (absorb lex0 ''hello'' ''user'' 5 0)) ''hello'' ''user'' 1 1))) ''hello'' = Some 2"
    using a by (simp add: absorb_word_weights extract_words_absorb hello_words g reinforce_def)
  show "(2 :: real) < 5" by simp
qed

end
